theory Spec2Isabelle
  imports Main "HOL-Library.Word" "HOL-Library.Monad_Syntax"
begin

unbundle bit_operations_syntax

section \<open>Constants (vt_page_table.hpp, vt_page_provider.hpp)\<close>

definition MaxVTMipLevels :: int where
  "MaxVTMipLevels = 16"

definition CacheSizeInPages :: nat where
  "CacheSizeInPages = 16"

definition TotalCachePages :: nat where
  "TotalCachePages = CacheSizeInPages * CacheSizeInPages"

definition MaxOutstandingPageRequests :: int where
  "MaxOutstandingPageRequests = 256"

section \<open>PageId codec (vt_common.hpp)\<close>

type_synonym PageId = "32 word"

definition InvalidPageId :: PageId where
  "InvalidPageId = 0xFFFFFFFF"

text \<open>The accessors return a C++ \<open>int\<close>; the masked and shifted value is at most 255.\<close>

definition pageIdExtractPageX :: "PageId \<Rightarrow> int" where
  "pageIdExtractPageX pid = uint (drop_bit 0 (pid AND 0x000000FF))"

definition pageIdExtractPageY :: "PageId \<Rightarrow> int" where
  "pageIdExtractPageY pid = uint (drop_bit 8 (pid AND 0x0000FF00))"

definition pageIdExtractMipLevel :: "PageId \<Rightarrow> int" where
  "pageIdExtractMipLevel pid = uint (drop_bit 16 (pid AND 0x00FF0000))"

definition pageIdExtractTextureIndex :: "PageId \<Rightarrow> int" where
  "pageIdExtractTextureIndex pid = uint (drop_bit 24 (pid AND 0xFF000000))"

text \<open>\<open>makePageId\<close> takes \<open>unsigned int\<close> arguments: a caller's \<open>int\<close> is converted
  modulo \<open>2 ^ 32\<close> (\<open>word_of_int\<close>) before the masks apply.\<close>

definition makePageId :: "32 word \<Rightarrow> 32 word \<Rightarrow> 32 word \<Rightarrow> 32 word \<Rightarrow> PageId" where
  "makePageId px py level texId =
     (push_bit 24 (texId AND 0xFF)) OR (push_bit 16 (level AND 0xFF))
       OR (push_bit 8 (py AND 0xFF)) OR (px AND 0xFF)"

section \<open>CachePageTree (vt_page_cache_mgr.cpp)\<close>

text \<open>A tree slot holds a \<open>CacheEntry *\<close>: null, the address of the static
  \<open>requestedPageDummy\<close>, or the address of an entry of the manager's pool (its index).\<close>

datatype TreeSlot = NullPtr | RequestedPageDummy | EntryPtr nat

text \<open>The header describes \<open>levels\<close> as conceptually
  \<open>CacheEntry * levels[num_levels][pages_per_level]\<close>; the model keeps one list of
  slots per level. \<open>numPagesX\<close> and \<open>numPagesY\<close> are the zero-filled arrays of
  \<open>MaxVTMipLevels\<close> ints.\<close>

record CachePageTree =
  numLevels :: int
  levels :: "TreeSlot list list"
  numPagesX :: "int list"
  numPagesY :: "int list"

text \<open>The constructor; \<open>None\<close> when one of its assertions fails (or the caller's
  arrays are shorter than \<open>vtNumLevels\<close>).\<close>

definition CachePageTree_new :: "int list \<Rightarrow> int list \<Rightarrow> int \<Rightarrow> CachePageTree option" where
  "CachePageTree_new vtPagesX vtPagesY vtNumLevels =
     (if \<not> (vtNumLevels > 0 \<and> vtNumLevels \<le> MaxVTMipLevels) then None
      else if \<not> (nat vtNumLevels \<le> length vtPagesX \<and> nat vtNumLevels \<le> length vtPagesY) then None
      else if \<not> list_all (\<lambda>l. vtPagesX ! l > 0 \<and> vtPagesY ! l > 0) [0..<nat vtNumLevels] then None
      else Some \<lparr> numLevels = vtNumLevels,
                  levels = map (\<lambda>l. replicate (nat (vtPagesX ! l * vtPagesY ! l)) NullPtr)
                               [0..<nat vtNumLevels],
                  numPagesX = take (nat vtNumLevels) vtPagesX
                                @ replicate (nat MaxVTMipLevels - nat vtNumLevels) 0,
                  numPagesY = take (nat vtNumLevels) vtPagesY
                                @ replicate (nat MaxVTMipLevels - nat vtNumLevels) 0 \<rparr>)"

definition CachePageTree_clear :: "CachePageTree \<Rightarrow> CachePageTree" where
  "CachePageTree_clear t = t\<lparr> levels := map (map (\<lambda>_. NullPtr)) (levels t) \<rparr>"

definition getNumPagesX :: "CachePageTree \<Rightarrow> int \<Rightarrow> int" where
  "getNumPagesX t level = numPagesX t ! nat level"

definition getNumPagesY :: "CachePageTree \<Rightarrow> int \<Rightarrow> int" where
  "getNumPagesY t level = numPagesY t ! nat level"

text \<open>\<open>get(level, x, y)\<close> and \<open>set(level, x, y, entry)\<close>: \<open>None\<close> when an assertion
  fails; a negative page index, which the source does not assert against and which
  would read outside the level, is \<open>None\<close> as well.\<close>

definition CachePageTree_get :: "CachePageTree \<Rightarrow> int \<Rightarrow> int \<Rightarrow> int \<Rightarrow> TreeSlot option" where
  "CachePageTree_get t level px py =
     (if \<not> (level \<ge> 0 \<and> level < numLevels t) then None
      else let pageIndex = px + py * getNumPagesX t level in
        if \<not> (pageIndex < getNumPagesX t level * getNumPagesY t level) then None
        else if pageIndex < 0 then None
        else Some (levels t ! nat level ! nat pageIndex))"

definition CachePageTree_set :: "CachePageTree \<Rightarrow> int \<Rightarrow> int \<Rightarrow> int \<Rightarrow> TreeSlot \<Rightarrow> CachePageTree option" where
  "CachePageTree_set t level px py entry =
     (if \<not> (level \<ge> 0 \<and> level < numLevels t) then None
      else let pageIndex = px + py * getNumPagesX t level in
        if \<not> (pageIndex < getNumPagesX t level * getNumPagesY t level) then None
        else if pageIndex < 0 then None
        else Some (t\<lparr> levels := (levels t)[nat level :=
                       (levels t ! nat level)[nat pageIndex := entry]] \<rparr>))"

definition CachePageTree_set_id :: "CachePageTree \<Rightarrow> PageId \<Rightarrow> TreeSlot \<Rightarrow> CachePageTree option" where
  "CachePageTree_set_id t pid entry =
     CachePageTree_set t (pageIdExtractMipLevel pid) (pageIdExtractPageX pid)
       (pageIdExtractPageY pid) entry"

section \<open>PageCacheMgr (vt_page_cache_mgr.cpp)\<close>

type_synonym CachePageCoord = "8 word \<times> 8 word"

text \<open>\<open>prev\<close> and \<open>next\<close> only ever receive null or the address of a pool entry
  (\<open>purgeCache\<close>, \<open>lookupPage\<close> and \<open>allocPageEntry\<close> are their only writers), so
  they are pool indices; \<open>None\<close> is the null pointer.\<close>

record CacheEntry =
  prevp :: "nat option"
  nextp :: "nat option"
  pageId :: PageId
  cacheCoord :: CachePageCoord

record RuntimeStats =
  servicedRequests :: int
  newFrameRequests :: int
  droppedRequests :: int
  reFrameRequests :: int
  totalFrameRequests :: int
  hitFrameRequests :: int

record PageCacheMgr =
  stats :: RuntimeStats
  mru :: "nat option"
  lru :: "nat option"
  cachePageTree :: CachePageTree
  cacheEntryPool :: "CacheEntry list"

datatype CachePageStatus = Cached | InFlight | Unavailable

definition clearedStats :: RuntimeStats where
  "clearedStats = \<lparr> servicedRequests = 0, newFrameRequests = 0, droppedRequests = 0,
                     reFrameRequests = 0, totalFrameRequests = 0, hitFrameRequests = 0 \<rparr>"

text \<open>Pointer access into the pool: dereferencing null (or an address outside the
  pool) is an error, \<open>None\<close>.\<close>

definition deref :: "CacheEntry list \<Rightarrow> nat option \<Rightarrow> CacheEntry option" where
  "deref pool p = (case p of None \<Rightarrow> None
                   | Some i \<Rightarrow> if i < length pool then Some (pool ! i) else None)"

definition set_prev :: "CacheEntry list \<Rightarrow> nat option \<Rightarrow> nat option \<Rightarrow> CacheEntry list option" where
  "set_prev pool p v = (case p of None \<Rightarrow> None
                        | Some i \<Rightarrow> if i < length pool
                                    then Some (pool[i := (pool ! i)\<lparr> prevp := v \<rparr>]) else None)"

definition set_next :: "CacheEntry list \<Rightarrow> nat option \<Rightarrow> nat option \<Rightarrow> CacheEntry list option" where
  "set_next pool p v = (case p of None \<Rightarrow> None
                        | Some i \<Rightarrow> if i < length pool
                                    then Some (pool[i := (pool ! i)\<lparr> nextp := v \<rparr>]) else None)"

definition validPageRequest :: "PageCacheMgr \<Rightarrow> int \<Rightarrow> int \<Rightarrow> int \<Rightarrow> bool" where
  "validPageRequest s level pageX pageY =
     (level < numLevels (cachePageTree s)
      \<and> pageX < getNumPagesX (cachePageTree s) level
      \<and> pageY < getNumPagesY (cachePageTree s) level)"

text \<open>The loop of \<open>purgeCache\<close> over \<open>i = 0 .. TotalCachePages - 1\<close>; the argument is
  the number of iterations done.\<close>

fun purgeEntries :: "nat \<Rightarrow> CacheEntry list \<Rightarrow> CacheEntry list" where
  "purgeEntries 0 entries = entries"
| "purgeEntries (Suc i) entries =
     (let es = purgeEntries i entries in
      es[i := (es ! i)\<lparr> prevp := (if i > 0 then Some (i - 1) else None),
                         nextp := (if i < TotalCachePages - 1 then Some (i + 1) else None),
                         pageId := InvalidPageId \<rparr>])"

definition purgeCache :: "PageCacheMgr \<Rightarrow> PageCacheMgr" where
  "purgeCache s =
     s\<lparr> stats := clearedStats,
        cachePageTree := CachePageTree_clear (cachePageTree s),
        cacheEntryPool := purgeEntries TotalCachePages (cacheEntryPool s),
        mru := Some 0,
        lru := Some (TotalCachePages - 1) \<rparr>"

text \<open>The constructor's nested loops over \<open>x\<close> and \<open>y\<close>, on the zero-filled pool.\<close>

definition clearedEntry :: CacheEntry where
  "clearedEntry = \<lparr> prevp = None, nextp = None, pageId = 0, cacheCoord = (0, 0) \<rparr>"

definition initEntries :: "CacheEntry list \<Rightarrow> CacheEntry list" where
  "initEntries entries =
     fold (\<lambda>cx es. fold (\<lambda>cy es'.
             es'[cx + cy * CacheSizeInPages :=
                   (es' ! (cx + cy * CacheSizeInPages))\<lparr> cacheCoord := (of_nat cx, of_nat cy),
                                                          pageId := InvalidPageId \<rparr>])
           [0..<CacheSizeInPages] es)
       [0..<CacheSizeInPages] entries"

definition PageCacheMgr_new :: "int list \<Rightarrow> int list \<Rightarrow> int \<Rightarrow> PageCacheMgr option" where
  "PageCacheMgr_new vtPagesX vtPagesY vtNumLevels =
     do {
       t \<leftarrow> CachePageTree_new vtPagesX vtPagesY vtNumLevels;
       Some (purgeCache \<lparr> stats = clearedStats, mru = None, lru = None, cachePageTree = t,
                          cacheEntryPool = initEntries (replicate TotalCachePages clearedEntry) \<rparr>)
     }"

text \<open>\<open>lookupPage\<close>: the result is \<open>None\<close> when an assertion fails or a null pointer is
  dereferenced. Every read of \<open>entry->prev\<close> and \<open>entry->next\<close> is taken from the pool
  as it stands at that statement.\<close>

definition lookupPage :: "PageId \<Rightarrow> PageCacheMgr \<Rightarrow> (CachePageStatus \<times> PageCacheMgr) option" where
  "lookupPage pid s =
     (let level = pageIdExtractMipLevel pid;
          pageX = pageIdExtractPageX pid;
          pageY = pageIdExtractPageY pid in
      if \<not> validPageRequest s level pageX pageY then None
      else
        let s1 = s\<lparr> stats := (stats s)\<lparr> totalFrameRequests := totalFrameRequests (stats s) + 1 \<rparr> \<rparr> in
        do {
          entry \<leftarrow> CachePageTree_get (cachePageTree s1) level pageX pageY;
          (case entry of
             NullPtr \<Rightarrow>
               do {
                 t \<leftarrow> CachePageTree_set (cachePageTree s1) level pageX pageY RequestedPageDummy;
                 Some (Unavailable,
                       s1\<lparr> cachePageTree := t,
                           stats := (stats s1)\<lparr> newFrameRequests := newFrameRequests (stats s1) + 1 \<rparr> \<rparr>)
               }
           | RequestedPageDummy \<Rightarrow>
               Some (InFlight,
                     s1\<lparr> stats := (stats s1)\<lparr> reFrameRequests := reFrameRequests (stats s1) + 1 \<rparr> \<rparr>)
           | EntryPtr e \<Rightarrow>
               let s2 = s1\<lparr> stats := (stats s1)\<lparr> hitFrameRequests := hitFrameRequests (stats s1) + 1 \<rparr> \<rparr>;
                   pool = cacheEntryPool s2 in
               if Some e \<noteq> mru s2 then
                 do {
                   en \<leftarrow> deref pool (Some e);
                   (pool1, lru1) \<leftarrow>
                     (if nextp en \<noteq> None then
                        do {
                          pa \<leftarrow> set_next pool (prevp en) (nextp en);
                          en' \<leftarrow> deref pa (Some e);
                          pb \<leftarrow> set_prev pa (nextp en') (prevp en');
                          Some (pb, lru s2)
                        }
                      else if Some e \<noteq> lru s2 then None
                      else
                        do {
                          pa \<leftarrow> set_next pool (prevp en) None;
                          en' \<leftarrow> deref pa (Some e);
                          Some (pa, prevp en')
                        });
                   if mru s2 = None then None
                   else
                     do {
                       pc \<leftarrow> set_prev pool1 (Some e) None;
                       pd \<leftarrow> set_next pc (Some e) (mru s2);
                       pe \<leftarrow> set_prev pd (mru s2) (Some e);
                       Some (Cached, s2\<lparr> cacheEntryPool := pe, lru := lru1, mru := Some e \<rparr>)
                     }
                 }
               else Some (Cached, s2))
        })"

definition stillWantPage :: "PageId \<Rightarrow> PageCacheMgr \<Rightarrow> bool option" where
  "stillWantPage pid s =
     (let level = pageIdExtractMipLevel pid;
          pageX = pageIdExtractPageX pid;
          pageY = pageIdExtractPageY pid in
      if \<not> validPageRequest s level pageX pageY then None
      else
        do {
          entry \<leftarrow> CachePageTree_get (cachePageTree s) level pageX pageY;
          Some (entry = RequestedPageDummy)
        })"

text \<open>\<open>allocPageEntry\<close> returns the reused entry (its pool index) and the new state.\<close>

definition allocPageEntry :: "PageCacheMgr \<Rightarrow> (nat \<times> PageCacheMgr) option" where
  "allocPageEntry s =
     do {
       l \<leftarrow> deref (cacheEntryPool s) (lru s);
       t \<leftarrow> (if pageId l \<noteq> InvalidPageId
              then CachePageTree_set_id (cachePageTree s) (pageId l) NullPtr
              else Some (cachePageTree s));
       entry \<leftarrow> lru s;
       pa \<leftarrow> set_next (cacheEntryPool s) (prevp l) None;
       en \<leftarrow> deref pa (Some entry);
       let lru1 = prevp en;
       pb \<leftarrow> set_prev pa (Some entry) None;
       pc \<leftarrow> set_next pb (Some entry) (mru s);
       pd \<leftarrow> set_prev pc (mru s) (Some entry);
       Some (entry, s\<lparr> cachePageTree := t, cacheEntryPool := pd, lru := lru1, mru := Some entry \<rparr>)
     }"

definition accommodatePage :: "PageId \<Rightarrow> PageCacheMgr \<Rightarrow> (CachePageCoord \<times> PageCacheMgr) option" where
  "accommodatePage pid s =
     (let level = pageIdExtractMipLevel pid;
          pageX = pageIdExtractPageX pid;
          pageY = pageIdExtractPageY pid in
      if \<not> validPageRequest s level pageX pageY then None
      else
        do {
          (entry, s1) \<leftarrow> allocPageEntry s;
          t \<leftarrow> CachePageTree_set (cachePageTree s1) level pageX pageY (EntryPtr entry);
          let pool = (cacheEntryPool s1)[entry := (cacheEntryPool s1 ! entry)\<lparr> pageId := pid \<rparr>];
          Some (cacheCoord (pool ! entry),
                s1\<lparr> cachePageTree := t, cacheEntryPool := pool,
                    stats := (stats s1)\<lparr> servicedRequests := servicedRequests (stats s1) + 1 \<rparr> \<rparr>)
        })"

definition notifyDroppedRequest :: "PageId \<Rightarrow> PageCacheMgr \<Rightarrow> PageCacheMgr option" where
  "notifyDroppedRequest pid s =
     (let level = pageIdExtractMipLevel pid;
          pageX = pageIdExtractPageX pid;
          pageY = pageIdExtractPageY pid in
      if \<not> validPageRequest s level pageX pageY then None
      else
        do {
          entry \<leftarrow> CachePageTree_get (cachePageTree s) level pageX pageY;
          (if entry \<noteq> RequestedPageDummy then None
           else
             do {
               t \<leftarrow> CachePageTree_set (cachePageTree s) level pageX pageY NullPtr;
               Some (s\<lparr> cachePageTree := t,
                        stats := (stats s)\<lparr> droppedRequests := droppedRequests (stats s) + 1 \<rparr> \<rparr>)
             })
        })"

definition sanitizePageId :: "PageCacheMgr \<Rightarrow> PageId \<Rightarrow> PageId" where
  "sanitizePageId s pid =
     (let px = pageIdExtractPageX pid;
          py = pageIdExtractPageY pid;
          level = pageIdExtractMipLevel pid;
          texId = pageIdExtractTextureIndex pid;
          level = (if level \<ge> numLevels (cachePageTree s)
                   then numLevels (cachePageTree s) - 1 else level);
          px = (if px \<ge> getNumPagesX (cachePageTree s) level
                then getNumPagesX (cachePageTree s) level - 1 else px);
          py = (if py \<ge> getNumPagesY (cachePageTree s) level
                then getNumPagesY (cachePageTree s) level - 1 else py)
      in makePageId (word_of_int px) (word_of_int py) (word_of_int level) (word_of_int texId))"

section \<open>VTFFPageFile::isPowerOfTwo (vt_page_file.cpp)\<close>

definition isPowerOfTwo :: "32 word \<Rightarrow> bool" where
  "isPowerOfTwo sz = ((sz AND (sz - 1)) = 0)"

text \<open>The checks the constructor's first pass makes on one \<open>MipLevelInfo\<close> header
  (lines 193 to 209), in the source's order; the result is the fatal error thrown, if
  any. \<open>numPagesX\<close> and \<open>numPagesY\<close> are \<open>uint16_t\<close>, widened to the helper's
  \<open>uint32_t\<close> parameter.\<close>

record MipLevelInfo =
  li_width :: "32 word"
  li_height :: "32 word"
  li_numPagesX :: "16 word"
  li_numPagesY :: "16 word"

datatype VTFFError = NumPagesXNotPowerOfTwo | NumPagesYNotPowerOfTwo | BadMipLevelLayout

definition validateMipLevelInfo :: "32 word \<Rightarrow> MipLevelInfo \<Rightarrow> VTFFError option" where
  "validateMipLevelInfo headerPageSize levelInfo =
     (if \<not> isPowerOfTwo (ucast (li_numPagesX levelInfo)) then Some NumPagesXNotPowerOfTwo
      else if \<not> isPowerOfTwo (ucast (li_numPagesY levelInfo)) then Some NumPagesYNotPowerOfTwo
      else if li_width levelInfo mod headerPageSize \<noteq> 0 \<or> li_height levelInfo mod headerPageSize \<noteq> 0
        then Some BadMipLevelLayout
      else None)"

section \<open>VTFFPageFile::loadPage (vt_page_file.cpp)\<close>

text \<open>\<open>sizeof(pageRequest.pageData)\<close>: \<open>128 * 128\<close> pixels of four bytes.\<close>

definition PageDataBytes :: nat where
  "PageDataBytes = 128 * 128 * 4"

record PageRequestDataPacket =
  packetPageId :: PageId
  fileId :: "32 word"
  pageData :: "8 word list"

record PageInfo =
  fileOffset :: "64 word"
  sizeInBytes :: "32 word"

text \<open>The page directory (\<open>VTFFPageTree\<close>, vt_file_format.hpp), one list of
  \<open>PageInfo\<close> per level.\<close>

record VTFFPageTree =
  pt_levels :: "PageInfo list list"
  pt_numPagesX :: "int list"
  pt_numPagesY :: "int list"

definition VTFFPageTree_get :: "VTFFPageTree \<Rightarrow> PageId \<Rightarrow> PageInfo option" where
  "VTFFPageTree_get t pid =
     (let px = pageIdExtractPageX pid;
          py = pageIdExtractPageY pid;
          level = pageIdExtractMipLevel pid in
      if \<not> (level \<ge> 0 \<and> level < int (length (pt_levels t))) then None
      else let pageIndex = px + py * pt_numPagesX t ! nat level in
        if \<not> (pageIndex < pt_numPagesX t ! nat level * pt_numPagesY t ! nat level) then None
        else if pageIndex < 0 then None
        else Some (pt_levels t ! nat level ! nat pageIndex))"

text \<open>The C stream behind \<open>pageFile\<close>: its bytes, its position, and for which offsets
  \<open>fseek\<close> reports failure (the operating system decides that). \<open>fread\<close> of one item
  of \<open>n\<close> bytes copies what is left of the file, up to \<open>n\<close> bytes, over the start of
  the buffer and returns 1 only when all \<open>n\<close> bytes were there.\<close>

record FileStream =
  fileBytes :: "8 word list"
  filePos :: nat
  seekFails :: "64 word \<Rightarrow> bool"

definition fseek_set :: "FileStream \<Rightarrow> 64 word \<Rightarrow> (FileStream \<times> int)" where
  "fseek_set f off = (if seekFails f off then (f, -1) else (f\<lparr> filePos := unat off \<rparr>, 0))"

definition fread1 :: "FileStream \<Rightarrow> 8 word list \<Rightarrow> nat \<Rightarrow> (FileStream \<times> 8 word list \<times> nat)" where
  "fread1 f buf n =
     (let got = take n (drop (filePos f) (fileBytes f)) in
      (f\<lparr> filePos := filePos f + length got \<rparr>,
       got @ drop (length got) buf,
       if length got = n then 1 else 0))"

datatype Diagnostic =
    ErrInvalidPageId
  | ErrSeekFailed "64 word"
  | WarnReadFailed nat string

record VTFFPageFile =
  pageFile :: FileStream
  inputFileName :: string
  addDebugInfo :: bool
  pageTree :: VTFFPageTree

text \<open>\<open>loadPage\<close> in the default build (logging compiled in). The state is the page
  file and the log; the result is \<open>None\<close> when an assertion of the directory lookup
  fails. \<open>addDebugInfoToPageData\<close> (vt_tools) is a parameter: it runs on the success
  path only.\<close>

definition loadPage ::
  "(int \<Rightarrow> int \<Rightarrow> int \<Rightarrow> 8 word list \<Rightarrow> 8 word list) \<Rightarrow> PageId \<Rightarrow> PageRequestDataPacket
     \<Rightarrow> VTFFPageFile \<times> Diagnostic list
     \<Rightarrow> (PageRequestDataPacket \<times> VTFFPageFile \<times> Diagnostic list) option" where
  "loadPage addDebugInfoToPageData pid pageRequest st =
     (let (pf, lg) = st in
      if pid = InvalidPageId then
        Some (pageRequest\<lparr> pageData := replicate PageDataBytes 0 \<rparr>, pf, lg @ [ErrInvalidPageId])
      else
        (case VTFFPageTree_get (pageTree pf) pid of
           None \<Rightarrow> None
         | Some pageInfo \<Rightarrow>
             let (f1, rc) = fseek_set (pageFile pf) (fileOffset pageInfo) in
             if rc \<noteq> 0 then
               Some (pageRequest\<lparr> pageData := replicate PageDataBytes 0 \<rparr>,
                     pf\<lparr> pageFile := f1 \<rparr>, lg @ [ErrSeekFailed (fileOffset pageInfo)])
             else
               let (f2, buf, items) = fread1 f1 (pageData pageRequest) PageDataBytes in
               if items \<noteq> 1 then
                 Some (pageRequest\<lparr> pageData := replicate PageDataBytes 0 \<rparr>,
                       pf\<lparr> pageFile := f2 \<rparr>,
                       lg @ [WarnReadFailed PageDataBytes (inputFileName pf)])
               else if addDebugInfo pf then
                 Some (pageRequest\<lparr> pageData :=
                         addDebugInfoToPageData (pageIdExtractPageX pid) (pageIdExtractPageY pid)
                           (pageIdExtractMipLevel pid) buf \<rparr>,
                       pf\<lparr> pageFile := f2 \<rparr>, lg)
               else Some (pageRequest\<lparr> pageData := buf \<rparr>, pf\<lparr> pageFile := f2 \<rparr>, lg)))"

text \<open>The three error conditions of a load: the sentinel id, a failed seek to the
  page's offset, a short read.\<close>

definition loadPage_error :: "PageId \<Rightarrow> VTFFPageFile \<Rightarrow> bool" where
  "loadPage_error pid pf =
     (pid = InvalidPageId
      \<or> (case VTFFPageTree_get (pageTree pf) pid of
            None \<Rightarrow> False
          | Some pageInfo \<Rightarrow>
              seekFails (pageFile pf) (fileOffset pageInfo)
              \<or> length (fileBytes (pageFile pf)) < unat (fileOffset pageInfo) + PageDataBytes))"

section \<open>PageProvider (vt_page_provider.cpp)\<close>

text \<open>A page file is known to the provider by what its \<open>loadPage\<close> leaves in the
  packet's payload; a registered texture is the list of its page files. A
  \<open>WorkerContext\<close> is a task handed to the dispatch queue and not yet run.\<close>

type_synonym PageFile = "PageId \<Rightarrow> 8 word list"

record WorkerContext =
  wc_texture :: nat
  wc_requestId :: PageId
  wc_fileId :: "32 word"

record PageProvider =
  outstandingRequests :: int
  forceSynchronous :: bool
  readyQueue :: "PageRequestDataPacket list"
  registeredTextures :: "PageFile list list"
  dispatched :: "WorkerContext list"

definition PageProvider_new :: "bool \<Rightarrow> PageProvider" where
  "PageProvider_new async =
     \<lparr> outstandingRequests = 0, forceSynchronous = (\<not> async), readyQueue = [],
       registeredTextures = [], dispatched = [] \<rparr>"

definition registerVirtualTexture :: "PageFile list \<Rightarrow> PageProvider \<Rightarrow> PageProvider" where
  "registerVirtualTexture vtTex p = p\<lparr> registeredTextures := registeredTextures p @ [vtTex] \<rparr>"

definition pushReadyRequest :: "PageRequestDataPacket \<Rightarrow> PageProvider \<Rightarrow> PageProvider" where
  "pushReadyRequest readyRequest p =
     p\<lparr> readyQueue := readyQueue p @ [readyRequest],
        outstandingRequests := outstandingRequests p - 1 \<rparr>"

text \<open>The loops over the page files of the texture, \<open>f = 0 .. numPageFiles - 1\<close>;
  the first argument is the number of files done.\<close>

fun asyncLoop :: "nat \<Rightarrow> nat \<Rightarrow> PageId \<Rightarrow> PageProvider \<Rightarrow> PageProvider" where
  "asyncLoop 0 textureIndex requestId p = p"
| "asyncLoop (Suc f) textureIndex requestId p =
     (let p1 = asyncLoop f textureIndex requestId p in
      p1\<lparr> dispatched := dispatched p1 @
             [\<lparr> wc_texture = textureIndex, wc_requestId = requestId, wc_fileId = of_nat f \<rparr>],
          outstandingRequests := outstandingRequests p1 + 1 \<rparr>)"

fun immediateLoop :: "nat \<Rightarrow> nat \<Rightarrow> PageId \<Rightarrow> PageProvider \<Rightarrow> PageProvider" where
  "immediateLoop 0 textureIndex requestId p = p"
| "immediateLoop (Suc f) textureIndex requestId p =
     (let p1 = immediateLoop f textureIndex requestId p;
          p2 = p1\<lparr> outstandingRequests := outstandingRequests p1 + 1 \<rparr>;
          pageRequest = \<lparr> packetPageId = requestId, fileId = of_nat f,
                          pageData = (registeredTextures p2 ! textureIndex ! f) requestId \<rparr>
      in pushReadyRequest pageRequest p2)"

text \<open>\<open>None\<close> is the read past the end of \<open>registeredTextures\<close>, which the
  \<open>std::min\<close> against \<open>size()\<close> does not exclude.\<close>

definition runAsyncRequest :: "PageId \<Rightarrow> PageProvider \<Rightarrow> (bool \<times> PageProvider) option" where
  "runAsyncRequest requestId p =
     (let textureIndex = min (nat (pageIdExtractTextureIndex requestId)) (length (registeredTextures p)) in
      if textureIndex < length (registeredTextures p)
      then Some (True, asyncLoop (length (registeredTextures p ! textureIndex)) textureIndex requestId p)
      else None)"

definition runImmediateRequest :: "PageId \<Rightarrow> PageProvider \<Rightarrow> (bool \<times> PageProvider) option" where
  "runImmediateRequest requestId p =
     (let textureIndex = min (nat (pageIdExtractTextureIndex requestId)) (length (registeredTextures p)) in
      if textureIndex < length (registeredTextures p)
      then Some (True, immediateLoop (length (registeredTextures p ! textureIndex)) textureIndex requestId p)
      else None)"

definition addPageRequest :: "PageId \<Rightarrow> PageProvider \<Rightarrow> (bool \<times> PageProvider) option" where
  "addPageRequest requestId p =
     (if outstandingRequests p = MaxOutstandingPageRequests then Some (False, p)
      else if \<not> forceSynchronous p then runAsyncRequest requestId p
      else runImmediateRequest requestId p)"

text \<open>A worker runs the \<open>k\<close>-th task still in the dispatch queue: it loads the page
  and pushes the packet, which decrements the counter.\<close>

definition workerCompletes :: "nat \<Rightarrow> PageProvider \<Rightarrow> PageProvider option" where
  "workerCompletes k p =
     (if k < length (dispatched p) then
        let ctx = dispatched p ! k;
            pageRequest = \<lparr> packetPageId = wc_requestId ctx, fileId = wc_fileId ctx,
                            pageData = (registeredTextures p ! wc_texture ctx ! unat (wc_fileId ctx))
                                         (wc_requestId ctx) \<rparr>
        in Some (pushReadyRequest pageRequest
                   (p\<lparr> dispatched := take k (dispatched p) @ drop (Suc k) (dispatched p) \<rparr>))
      else None)"

datatype ProviderEvent = AddPageRequest PageId | WorkerCompletes nat

fun providerRun :: "ProviderEvent list \<Rightarrow> PageProvider \<Rightarrow> PageProvider option" where
  "providerRun [] p = Some p"
| "providerRun (AddPageRequest requestId # evs) p =
     (case addPageRequest requestId p of None \<Rightarrow> None | Some (_, p1) \<Rightarrow> providerRun evs p1)"
| "providerRun (WorkerCompletes k # evs) p =
     (case workerCompletes k p of None \<Rightarrow> None | Some p1 \<Rightarrow> providerRun evs p1)"

section \<open>Well-formed trees and example objects\<close>

text \<open>What the \<open>CachePageTree\<close> constructor establishes and \<open>set\<close> and \<open>clear\<close>
  keep: between 1 and \<open>MaxVTMipLevels\<close> levels, positive page counts on each of them,
  and \<open>numPagesX * numPagesY\<close> slots per level.\<close>

definition tree_wf :: "CachePageTree \<Rightarrow> bool" where
  "tree_wf t =
     (0 < numLevels t \<and> numLevels t \<le> MaxVTMipLevels
      \<and> length (levels t) = nat (numLevels t)
      \<and> length (numPagesX t) = nat MaxVTMipLevels
      \<and> length (numPagesY t) = nat MaxVTMipLevels
      \<and> list_all (\<lambda>l. 0 < numPagesX t ! l \<and> 0 < numPagesY t ! l
                       \<and> length (levels t ! l) = nat (numPagesX t ! l * numPagesY t ! l))
           [0..<nat (numLevels t)])"

text \<open>The cache of a 2048 x 2048 texture: 16 x 16 pages at level 0, five levels.\<close>

definition exampleCache :: PageCacheMgr where
  "exampleCache = the (PageCacheMgr_new [16, 8, 4, 2, 1] [16, 8, 4, 2, 1] 5)"

text \<open>An asynchronous provider with one registered texture of three page files
  (diffuse, normal, specular), as demo_app_planets.cpp builds them.\<close>

definition exampleProvider :: PageProvider where
  "exampleProvider =
     registerVirtualTexture [\<lambda>_. [], \<lambda>_. [], \<lambda>_. []] (PageProvider_new True)"

text \<open>A page file of one level with one page at offset 0, whose stream is empty (so
  that every read is short) and never fails to seek.\<close>

definition truncatedPageFile :: VTFFPageFile where
  "truncatedPageFile =
     \<lparr> pageFile = \<lparr> fileBytes = [], filePos = 0, seekFails = (\<lambda>_. False) \<rparr>,
       inputFileName = ''truncated.vt'',
       addDebugInfo = False,
       pageTree = \<lparr> pt_levels = [[\<lparr> fileOffset = 0, sizeInBytes = 65536 \<rparr>]],
                    pt_numPagesX = [1], pt_numPagesY = [1] \<rparr> \<rparr>"

section \<open>The LRU chain as a list\<close>

text \<open>\<open>walk pool fuel p\<close> follows the \<open>next\<close> links from \<open>p\<close> for at most \<open>fuel\<close>
  steps and lists the entries visited; \<open>lru_order\<close> is the walk from \<open>mru\<close> with one
  step more than the pool has entries, so that a cycle shows as a list that is too
  long.\<close>

fun walk :: "CacheEntry list \<Rightarrow> nat \<Rightarrow> nat option \<Rightarrow> nat list" where
  "walk pool 0 p = []"
| "walk pool (Suc n) None = []"
| "walk pool (Suc n) (Some i) = i # walk pool n (nextp (pool ! i))"

definition lru_order :: "PageCacheMgr \<Rightarrow> nat list" where
  "lru_order s = walk (cacheEntryPool s) (Suc TotalCachePages) (mru s)"

text \<open>The successor and the predecessor of an element in a list.\<close>

fun succ_in :: "nat list \<Rightarrow> nat \<Rightarrow> nat option" where
  "succ_in [] x = None"
| "succ_in [y] x = None"
| "succ_in (y # z # zs) x = (if x = y then Some z else succ_in (z # zs) x)"

fun pred_in :: "nat list \<Rightarrow> nat \<Rightarrow> nat option" where
  "pred_in [] x = None"
| "pred_in [y] x = None"
| "pred_in (y # z # zs) x = (if x = z then Some y else pred_in (z # zs) x)"

text \<open>\<open>chain pool ns\<close>: the entries \<open>ns\<close>, without repetition, are linked in this
  order, each \<open>prev\<close> and \<open>next\<close> pointing to its neighbour in \<open>ns\<close>, null at the two
  ends.\<close>

definition chain :: "CacheEntry list \<Rightarrow> nat list \<Rightarrow> bool" where
  "chain pool ns =
     (distinct ns
      \<and> list_all (\<lambda>x. x < length pool \<and> prevp (pool ! x) = pred_in ns x
                        \<and> nextp (pool ! x) = succ_in ns x) ns)"

text \<open>\<open>chain_of s ns\<close>: the pool of \<open>s\<close> has \<open>TotalCachePages\<close> entries, all of them
  linked in the order \<open>ns\<close> from \<open>mru\<close> to \<open>lru\<close>. \<open>lru_chain_ok\<close>: the LRU chain is a
  valid doubly-linked list of exactly \<open>TotalCachePages\<close> nodes, namely the ones met on
  the walk from \<open>mru\<close>.\<close>

definition chain_of :: "PageCacheMgr \<Rightarrow> nat list \<Rightarrow> bool" where
  "chain_of s ns =
     (length (cacheEntryPool s) = TotalCachePages
      \<and> length ns = TotalCachePages
      \<and> chain (cacheEntryPool s) ns
      \<and> mru s = Some (hd ns)
      \<and> lru s = Some (last ns))"

definition lru_chain_ok :: "PageCacheMgr \<Rightarrow> bool" where
  "lru_chain_ok s = chain_of s (lru_order s)"

section \<open>The invariant of the cache manager\<close>

text \<open>A page position in range for the tree: what \<open>validPageRequest\<close> tests, with
  the lower bounds that hold for every field extracted from a PageId.\<close>

definition validPage :: "CachePageTree \<Rightarrow> int \<Rightarrow> int \<Rightarrow> int \<Rightarrow> bool" where
  "validPage t level px py =
     (0 \<le> level \<and> level < numLevels t \<and> 0 \<le> px \<and> px < getNumPagesX t level
      \<and> 0 \<le> py \<and> py < getNumPagesY t level)"

definition validId :: "PageCacheMgr \<Rightarrow> PageId \<Rightarrow> bool" where
  "validId s pid =
     validPageRequest s (pageIdExtractMipLevel pid) (pageIdExtractPageX pid) (pageIdExtractPageY pid)"

text \<open>Every entry pointer stored in the tree points into the pool.\<close>

definition slot_ok :: "TreeSlot \<Rightarrow> bool" where
  "slot_ok v = (case v of EntryPtr e \<Rightarrow> e < TotalCachePages | _ \<Rightarrow> True)"

definition tree_ptrs_ok :: "CachePageTree \<Rightarrow> bool" where
  "tree_ptrs_ok t = list_all (list_all slot_ok) (levels t)"

text \<open>Every pool entry is free (its page id is the sentinel) or holds a page id in
  range for the tree.\<close>

definition entries_ok :: "PageCacheMgr \<Rightarrow> bool" where
  "entries_ok s =
     list_all (\<lambda>en. pageId en = InvalidPageId \<or> validId s (pageId en)) (cacheEntryPool s)"

definition cache_inv :: "PageCacheMgr \<Rightarrow> bool" where
  "cache_inv s =
     (lru_chain_ok s \<and> tree_wf (cachePageTree s) \<and> tree_ptrs_ok (cachePageTree s)
      \<and> entries_ok s)"

text \<open>The tree slot of a page id, read with the tree's own accessor.\<close>

definition slotOf :: "PageCacheMgr \<Rightarrow> PageId \<Rightarrow> TreeSlot option" where
  "slotOf s pid =
     CachePageTree_get (cachePageTree s) (pageIdExtractMipLevel pid) (pageIdExtractPageX pid)
       (pageIdExtractPageY pid)"

text \<open>Two page ids name the same page of a texture (the same tree slot) when level,
  x and y agree; the texture index plays no part in the tree.\<close>

definition samePage :: "PageId \<Rightarrow> PageId \<Rightarrow> bool" where
  "samePage p q =
     (pageIdExtractMipLevel p = pageIdExtractMipLevel q
      \<and> pageIdExtractPageX p = pageIdExtractPageX q
      \<and> pageIdExtractPageY p = pageIdExtractPageY q)"

section \<open>Sequences of calls on the cache manager\<close>

datatype CacheOp = LookupPage PageId | AccommodatePage PageId | PurgeCache

fun cacheStep :: "CacheOp \<Rightarrow> PageCacheMgr \<Rightarrow> PageCacheMgr option" where
  "cacheStep (LookupPage pid) s = map_option snd (lookupPage pid s)"
| "cacheStep (AccommodatePage pid) s = map_option snd (accommodatePage pid s)"
| "cacheStep PurgeCache s = Some (purgeCache s)"

fun cacheRun :: "CacheOp list \<Rightarrow> PageCacheMgr \<Rightarrow> PageCacheMgr option" where
  "cacheRun [] s = Some s"
| "cacheRun (c # cs) s = (case cacheStep c s of None \<Rightarrow> None | Some s1 \<Rightarrow> cacheRun cs s1)"

text \<open>A call is in range when its page id is (\<open>purgeCache\<close> takes none).\<close>

fun opValid :: "PageCacheMgr \<Rightarrow> CacheOp \<Rightarrow> bool" where
  "opValid s (LookupPage pid) = validId s pid"
| "opValid s (AccommodatePage pid) = validId s pid"
| "opValid s PurgeCache = True"

text \<open>The page a page id names within its texture, and whether a page is cached:
  its tree slot points to a pool entry that holds this page id.\<close>

definition pageKey :: "PageId \<Rightarrow> int \<times> int \<times> int" where
  "pageKey p = (pageIdExtractMipLevel p, pageIdExtractPageX p, pageIdExtractPageY p)"

definition isCached :: "PageCacheMgr \<Rightarrow> PageId \<Rightarrow> bool" where
  "isCached s p = (case slotOf s p of
                     Some (EntryPtr e) \<Rightarrow> pageId (cacheEntryPool s ! e) = p
                   | _ \<Rightarrow> False)"

text \<open>Accommodating a list of pages one after the other.\<close>

fun accommodateAll :: "PageId list \<Rightarrow> PageCacheMgr \<Rightarrow> PageCacheMgr option" where
  "accommodateAll [] s = Some s"
| "accommodateAll (p # ps) s =
     (case accommodatePage p s of None \<Rightarrow> None | Some (_, s1) \<Rightarrow> accommodateAll ps s1)"

section \<open>Example pages\<close>

text \<open>257 distinct pages of the example texture: the 256 pages of level 0, row by
  row, then page (0, 0) of level 1.\<close>

definition examplePages :: "PageId list" where
  "examplePages =
     map (\<lambda>i. makePageId (of_nat (i mod 16)) (of_nat (i div 16)) 0 0) [0..<256]
       @ [makePageId 0 0 1 0]"

section \<open>PageResolver::feedbackBufferAnalysis (vt_page_resolver.cpp)\<close>

text \<open>\<open>PageTable::TableSizeInPages\<close> and \<open>PageTable::TotalTablePages\<close>
  (vt_page_table.hpp).\<close>

definition TableSizeInPages :: nat where
  "TableSizeInPages = 16"

definition TotalTablePages :: nat where
  "TotalTablePages = TableSizeInPages * TableSizeInPages"

text \<open>\<open>pageMap\<close> is a member declared in vt_page_resolver.hpp; the comments of the
  function name its type, \<open>std::unordered_map\<close>, from page id to number of
  occurrences. It is an association list here, a key being appended at its first
  occurrence, with counters that do not overflow. \<open>pageMap_increment\<close> is
  \<open>pageMap[k]++\<close> and \<open>pageMap_lookup\<close> is the read \<open>pageMap[k]\<close> of the comparator
  (0 for a missing key).\<close>

type_synonym PageFrequencyMap = "(PageId \<times> nat) list"

fun pageMap_increment :: "PageId \<Rightarrow> PageFrequencyMap \<Rightarrow> PageFrequencyMap" where
  "pageMap_increment k [] = [(k, 1)]"
| "pageMap_increment k ((k', c) # m) =
     (if k' = k then (k', c + 1) # m else (k', c) # pageMap_increment k m)"

definition pageMap_lookup :: "PageFrequencyMap \<Rightarrow> PageId \<Rightarrow> nat" where
  "pageMap_lookup m k = (case map_of m k of None \<Rightarrow> 0 | Some c \<Rightarrow> c)"

text \<open>The loop over the feedback pixels.\<close>

fun countPages :: "PageId list \<Rightarrow> PageFrequencyMap \<Rightarrow> PageFrequencyMap" where
  "countPages [] pageMap = pageMap"
| "countPages (framePage # framePages) pageMap =
     countPages framePages
       (if framePage \<noteq> InvalidPageId then pageMap_increment framePage pageMap else pageMap)"

text \<open>The comparator handed to \<open>std::sort\<close>: \<open>a\<close> goes before \<open>b\<close>.\<close>

definition pageBefore :: "PageFrequencyMap \<Rightarrow> PageId \<Rightarrow> PageId \<Rightarrow> bool" where
  "pageBefore pageMap a b =
     (let aMip = pageIdExtractMipLevel a;
          bMip = pageIdExtractMipLevel b in
      if aMip > bMip then True
      else if aMip = bMip then pageMap_lookup pageMap a > pageMap_lookup pageMap b
      else False)"

text \<open>The comparator compares the pair (mip level, occurrences) lexicographically.\<close>

definition pageRank :: "PageFrequencyMap \<Rightarrow> PageId \<Rightarrow> int \<times> nat" where
  "pageRank m a = (pageIdExtractMipLevel a, pageMap_lookup m a)"

text \<open>\<open>std::sort\<close> is library code whose algorithm is not fixed; an insertion sort
  with the caller's comparator stands for it. The properties proved of its result are
  the ones the standard promises: a rearrangement of the input in which no element
  goes before an earlier one.\<close>

fun sortInsert :: "('a \<Rightarrow> 'a \<Rightarrow> bool) \<Rightarrow> 'a \<Rightarrow> 'a list \<Rightarrow> 'a list" where
  "sortInsert before v [] = [v]"
| "sortInsert before v (y # ys) =
     (if before v y then v # y # ys else y # sortInsert before v ys)"

fun stdSort :: "('a \<Rightarrow> 'a \<Rightarrow> bool) \<Rightarrow> 'a list \<Rightarrow> 'a list" where
  "stdSort before [] = []"
| "stdSort before (v # vs) = sortInsert before v (stdSort before vs)"

text \<open>The analysis part of \<open>feedbackBufferAnalysis\<close> (lines 170 to 234): from the
  pixels read back and the current \<open>maxPageRequestsPerFrame\<close> to the frequency map,
  the sorted list of unique pages, \<open>visiblePages\<close> and the new
  \<open>maxPageRequestsPerFrame\<close>. \<open>visiblePages\<close> is the size of the map converted to
  \<open>int\<close>; a feedback buffer has far fewer than \<open>2^31\<close> pixels, and the model's
  integer does not wrap. The loop that follows walks the sorted list and hands each id
  to the cache and the provider; it then clears list and map.\<close>

record FeedbackAnalysis =
  fa_pageMap :: PageFrequencyMap
  fa_sortedPages :: "PageId list"
  fa_visiblePages :: int
  fa_maxPageRequestsPerFrame :: int

definition feedbackBufferAnalysis :: "PageId list \<Rightarrow> int \<Rightarrow> FeedbackAnalysis" where
  "feedbackBufferAnalysis framePages maxPageRequestsPerFrame =
     (let pageMap = countPages framePages [];
          sortedPages = stdSort (pageBefore pageMap) (map fst pageMap);
          visiblePages = int (length pageMap)
      in \<lparr> fa_pageMap = pageMap,
           fa_sortedPages = sortedPages,
           fa_visiblePages = visiblePages,
           fa_maxPageRequestsPerFrame =
             (if visiblePages \<ge> int TotalTablePages then int TotalTablePages
              else maxPageRequestsPerFrame) \<rparr>)"

text \<open>A feedback buffer of five pixels: page (0, 0) of level 0 once, the sentinel,
  page (1, 0) of level 0 twice and page (0, 0) of level 1 once.\<close>

definition exampleFeedback :: "PageId list" where
  "exampleFeedback =
     [makePageId 0 0 0 0, InvalidPageId, makePageId 1 0 0 0, makePageId 0 0 1 0,
      makePageId 1 0 0 0]"

section \<open>PageIndirectionTable (vt_page_indirection_table.cpp)\<close>

text \<open>The entry of the RGBA 8:8:8:8 table is a struct of four bytes; the entry of the
  RGB 5:6:5 table is a \<open>uint16_t\<close>.\<close>

record TableEntryRgba8888 =
  cachePageX :: "8 word"
  cachePageY :: "8 word"
  scaleHigh :: "8 word"
  scaleLow :: "8 word"

type_synonym TableEntryRgb565 = "16 word"

text \<open>The two table classes have the same members but for the entry type \<open>'e\<close> and
  for \<open>log2VirtPagesWide\<close>, a member of the RGB 5:6:5 class only (0 in the other).
  \<open>tableEntryPool\<close> is the single allocation that holds every level, level 0 first;
  \<open>tableLevels\<close> holds for each level the pointer to its first entry, as an index into
  the pool. \<open>it_numPagesX\<close> and \<open>it_numPagesY\<close> are the zero-filled arrays of
  \<open>MaxVTMipLevels\<close> ints of the base class, \<open>indirectionTextureId\<close> the OpenGL
  texture name.

  The upsampling loop reads \<open>src[(x >> 1) + (y >> 1) * srcW]\<close> with no bounds check,
  and on a table whose levels do not halve this index can leave the pool.
  \<open>beyondPool\<close> is what the memory around the pool holds, by address relative to the
  start of the pool; the update never writes there and nothing is assumed about it.\<close>

record 'e PageIndirectionTable =
  indirectionTextureId :: nat
  it_numLevels :: int
  it_numPagesX :: "int list"
  it_numPagesY :: "int list"
  log2VirtPagesWide :: int
  tableLevels :: "nat list"
  tableEntryPool :: "'e list"
  beyondPool :: "int \<Rightarrow> 'e"

text \<open>A loop whose body may fail: the body runs on each element in turn, and the first
  failure (an assertion, an access outside the pool) ends the loop with \<open>None\<close>.\<close>

fun forEach :: "('a \<Rightarrow> 's \<Rightarrow> 's option) \<Rightarrow> 'a list \<Rightarrow> 's \<Rightarrow> 's option" where
  "forEach body [] s = Some s"
| "forEach body (v # vs) s = (case body v s of None \<Rightarrow> None | Some s' \<Rightarrow> forEach body vs s')"

text \<open>\<open>totalTableEntries\<close> after the levels below \<open>l\<close> have been counted: the offset of
  level \<open>l\<close> in the pool.\<close>

fun levelOffset :: "int list \<Rightarrow> int list \<Rightarrow> nat \<Rightarrow> nat" where
  "levelOffset pagesX pagesY 0 = 0"
| "levelOffset pagesX pagesY (Suc l) =
     levelOffset pagesX pagesY l + nat (pagesX ! l * pagesY ! l)"

text \<open>The base class constructor followed by \<open>initTexture\<close>, which allocates the pool,
  sets up the level pointers and default initialises the entries of each level with
  \<open>defaultEntry\<close>. \<open>None\<close> when an assertion of the base class constructor fails (or the
  caller's arrays are shorter than \<open>vtNumLevels\<close>), and when \<open>glGenTextures\<close> gives the
  name 0, on which \<open>vtFatalError\<close> throws. \<open>genTextureId\<close> is the name
  \<open>glGenTextures\<close> gives and \<open>heap\<close> the memory around the new pool; the other
  OpenGL calls are left out.\<close>

definition PageIndirectionTable_new ::
  "int list \<Rightarrow> int list \<Rightarrow> int \<Rightarrow> int \<Rightarrow> (int list \<Rightarrow> nat \<Rightarrow> 'e) \<Rightarrow> nat \<Rightarrow> (int \<Rightarrow> 'e)
     \<Rightarrow> 'e PageIndirectionTable option" where
  "PageIndirectionTable_new vtPagesX vtPagesY vtNumLevels log2Wide defaultEntry genTextureId heap =
     (if \<not> (vtNumLevels > 0 \<and> vtNumLevels \<le> MaxVTMipLevels) then None
      else if \<not> (nat vtNumLevels \<le> length vtPagesX \<and> nat vtNumLevels \<le> length vtPagesY) then None
      else if \<not> list_all (\<lambda>l. vtPagesX ! l > 0 \<and> vtPagesY ! l > 0) [0..<nat vtNumLevels] then None
      else if genTextureId = 0 then None
      else
        let pagesX = take (nat vtNumLevels) vtPagesX
                       @ replicate (nat MaxVTMipLevels - nat vtNumLevels) 0;
            pagesY = take (nat vtNumLevels) vtPagesY
                       @ replicate (nat MaxVTMipLevels - nat vtNumLevels) 0
        in Some \<lparr> indirectionTextureId = genTextureId,
                  it_numLevels = vtNumLevels,
                  it_numPagesX = pagesX,
                  it_numPagesY = pagesY,
                  log2VirtPagesWide = log2Wide,
                  tableLevels = map (levelOffset pagesX pagesY) [0..<nat vtNumLevels]
                                  @ replicate (nat MaxVTMipLevels - nat vtNumLevels) 0,
                  tableEntryPool =
                    concat (map (\<lambda>l. replicate (nat (pagesX ! l * pagesY ! l))
                                                (defaultEntry pagesX l))
                                [0..<nat vtNumLevels]),
                  beyondPool = heap \<rparr>)"

text \<open>\<open>const uint16_t scale = (numPagesX[0] * 16) >> l\<close> and the two bytes stored.\<close>

definition entryScale :: "int list \<Rightarrow> nat \<Rightarrow> 16 word" where
  "entryScale pagesX l = word_of_int (drop_bit l (pagesX ! 0 * 16))"

definition defaultEntryRgba8888 :: "int list \<Rightarrow> nat \<Rightarrow> TableEntryRgba8888" where
  "defaultEntryRgba8888 pagesX l =
     \<lparr> cachePageX = 0, cachePageY = 0,
       scaleHigh = ucast (entryScale pagesX l AND 0xFF),
       scaleLow = ucast (drop_bit 8 (entryScale pagesX l)) \<rparr>"

definition PageIndirectionTableRgba8888_new ::
  "int list \<Rightarrow> int list \<Rightarrow> int \<Rightarrow> nat \<Rightarrow> (int \<Rightarrow> TableEntryRgba8888)
     \<Rightarrow> TableEntryRgba8888 PageIndirectionTable option" where
  "PageIndirectionTableRgba8888_new vtPagesX vtPagesY vtNumLevels genTextureId heap =
     PageIndirectionTable_new vtPagesX vtPagesY vtNumLevels 0 defaultEntryRgba8888
       genTextureId heap"

text \<open>\<open>static_cast<int>(std::log2(v))\<close> for a positive \<open>int\<close>: the position of the
  highest set bit.\<close>

function log2floor :: "nat \<Rightarrow> nat" where
  "log2floor v = (if v < 2 then 0 else Suc (log2floor (v div 2)))"
  by pat_completeness auto
termination
  by (relation "measure id") auto

declare log2floor.simps [simp del]

definition defaultEntryRgb565 :: "int \<Rightarrow> int list \<Rightarrow> nat \<Rightarrow> TableEntryRgb565" where
  "defaultEntryRgb565 log2Wide pagesX l = word_of_int (push_bit 5 (log2Wide - int l))"

definition PageIndirectionTableRgb565_new ::
  "int list \<Rightarrow> int list \<Rightarrow> int \<Rightarrow> nat \<Rightarrow> (int \<Rightarrow> TableEntryRgb565)
     \<Rightarrow> TableEntryRgb565 PageIndirectionTable option" where
  "PageIndirectionTableRgb565_new vtPagesX vtPagesY vtNumLevels genTextureId heap =
     (if \<not> (0 < length vtPagesX) then None
      else let log2Wide = int (log2floor (nat (vtPagesX ! 0)))
           in PageIndirectionTable_new vtPagesX vtPagesY vtNumLevels log2Wide
                (defaultEntryRgb565 log2Wide) genTextureId heap)"

text \<open>The entry written for a cache entry of level \<open>l\<close>: the RGBA table assigns the
  four fields of the entry in place, the RGB 5:6:5 table assigns a packed word. The
  arithmetic is the source's \<open>int\<close> arithmetic on unbounded integers (the shift of a
  negative \<open>log2VirtPagesWide - l\<close> as in two's complement), the result truncated to
  the entry's width.\<close>

definition writeEntryRgba8888 ::
  "TableEntryRgba8888 PageIndirectionTable \<Rightarrow> nat \<Rightarrow> CacheEntry \<Rightarrow> TableEntryRgba8888 \<Rightarrow> TableEntryRgba8888" where
  "writeEntryRgba8888 tbl l cacheEntry entry =
     entry\<lparr> cachePageX := fst (cacheCoord cacheEntry),
            cachePageY := snd (cacheCoord cacheEntry),
            scaleHigh := ucast (entryScale (it_numPagesX tbl) l AND 0xFF),
            scaleLow := ucast (drop_bit 8 (entryScale (it_numPagesX tbl) l)) \<rparr>"

definition writeEntryRgb565 ::
  "TableEntryRgb565 PageIndirectionTable \<Rightarrow> nat \<Rightarrow> CacheEntry \<Rightarrow> TableEntryRgb565 \<Rightarrow> TableEntryRgb565" where
  "writeEntryRgb565 tbl l cacheEntry entry =
     word_of_int
       (push_bit 11 (uint (fst (cacheCoord cacheEntry)) * 32 div int TableSizeInPages)
        OR push_bit 5 (log2VirtPagesWide tbl - int l)
        OR (uint (snd (cacheCoord cacheEntry)) * 32 div int TableSizeInPages))"

text \<open>The body of the loop over the cache entries, for level \<open>l\<close>: an entry of another
  level or with the invalid id is skipped; the two assertions on the index fail to
  \<open>None\<close>, and so does a write outside the pool.\<close>

definition writePage ::
  "(nat \<Rightarrow> CacheEntry \<Rightarrow> 'e \<Rightarrow> 'e) \<Rightarrow> 'e PageIndirectionTable \<Rightarrow> nat \<Rightarrow> CacheEntry \<Rightarrow> 'e list
     \<Rightarrow> 'e list option" where
  "writePage writeEntry tbl l cacheEntry pool =
     (if pageIdExtractMipLevel (pageId cacheEntry) \<noteq> int l \<or> pageId cacheEntry = InvalidPageId
      then Some pool
      else
        let x = pageIdExtractPageX (pageId cacheEntry);
            y = pageIdExtractPageY (pageId cacheEntry);
            index = x + y * it_numPagesX tbl ! l
        in if \<not> index \<ge> 0 then None
           else if \<not> index < it_numPagesX tbl ! l * it_numPagesY tbl ! l then None
           else let a = tableLevels tbl ! l + nat index
                in if \<not> a < length pool then None
                   else Some (pool[a := writeEntry l cacheEntry (pool ! a)]))"

text \<open>A read through a pointer into the pool, at the address \<open>a\<close> relative to the
  start of the pool: the entry of the pool, or what the memory around the pool holds.\<close>

definition readEntry :: "'e PageIndirectionTable \<Rightarrow> 'e list \<Rightarrow> int \<Rightarrow> 'e" where
  "readEntry tbl pool a =
     (if 0 \<le> a \<and> a < int (length pool) then pool ! nat a else beyondPool tbl a)"

text \<open>The body of the upsampling loops, for the cell \<open>(x, y)\<close> of level \<open>l - 1\<close>:
  \<open>dest[x + y * destW] = src[(x >> 1) + (y >> 1) * srcW]\<close>, where \<open>src\<close> and \<open>dest\<close>
  point into the pool. The read is \<open>readEntry\<close>. The write stays inside level \<open>l - 1\<close>
  on every table the constructor builds, since \<open>x + y * destW < destW * destH\<close>; on
  any other table a write outside the pool is \<open>None\<close>.\<close>

definition upsampleCell :: "'e PageIndirectionTable \<Rightarrow> nat \<Rightarrow> nat \<times> nat \<Rightarrow> 'e list \<Rightarrow> 'e list option" where
  "upsampleCell tbl l yx pool =
     (let y = fst yx; x = snd yx;
          srcW = it_numPagesX tbl ! l;
          destW = it_numPagesX tbl ! (l - 1);
          s = int (tableLevels tbl ! l) + (int x div 2 + (int y div 2) * srcW);
          d = int (tableLevels tbl ! (l - 1)) + (int x + int y * destW)
      in if 0 \<le> d \<and> d < int (length pool)
         then Some (pool[nat d := readEntry tbl pool s])
         else None)"

text \<open>The two nested loops, \<open>y\<close> outside and \<open>x\<close> inside, visit the cells of level
  \<open>l - 1\<close> row by row.\<close>

definition upsample :: "'e PageIndirectionTable \<Rightarrow> nat \<Rightarrow> 'e list \<Rightarrow> 'e list option" where
  "upsample tbl l pool =
     (let destW = it_numPagesX tbl ! (l - 1);
          destH = it_numPagesY tbl ! (l - 1)
      in forEach (upsampleCell tbl l) (List.product [0..<nat destH] [0..<nat destW]) pool)"

text \<open>One round of the loop over the levels: write the pages of level \<open>l\<close>, then, if
  \<open>l\<close> is not 0, upsample level \<open>l\<close> into level \<open>l - 1\<close>.\<close>

definition levelStep ::
  "(nat \<Rightarrow> CacheEntry \<Rightarrow> 'e \<Rightarrow> 'e) \<Rightarrow> 'e PageIndirectionTable \<Rightarrow> CacheEntry list \<Rightarrow> nat \<Rightarrow> 'e list
     \<Rightarrow> 'e list option" where
  "levelStep writeEntry tbl pages l pool =
     (case forEach (writePage writeEntry tbl l) pages pool of
        None \<Rightarrow> None
      | Some pool' \<Rightarrow> if l \<noteq> 0 then upsample tbl l pool' else Some pool')"

text \<open>\<open>updateIndirectionTexture\<close> up to the entry written: the two assertions, then
  the levels from \<open>numLevels - 1\<close> down to 0. \<open>pages\<close> is the pointer to the array of
  \<open>TotalCachePages\<close> cache entries, \<open>None\<close> for the null pointer; a shorter array would
  be read past its end. \<open>current2DTexture\<close> is what \<open>gl::getCurrent2DTexture()\<close>
  returns. The upload of the levels with \<open>glTexImage2D\<close> is left out.\<close>

definition updateIndirection ::
  "(nat \<Rightarrow> CacheEntry \<Rightarrow> 'e \<Rightarrow> 'e) \<Rightarrow> 'e PageIndirectionTable \<Rightarrow> nat \<Rightarrow> CacheEntry list option
     \<Rightarrow> 'e PageIndirectionTable option" where
  "updateIndirection writeEntry tbl current2DTexture pages =
     (case pages of
        None \<Rightarrow> None
      | Some cacheEntries \<Rightarrow>
          if indirectionTextureId tbl \<noteq> current2DTexture then None
          else if length cacheEntries < TotalCachePages then None
          else case forEach (levelStep writeEntry tbl (take TotalCachePages cacheEntries))
                      (rev [0..<nat (it_numLevels tbl)]) (tableEntryPool tbl) of
                 None \<Rightarrow> None
               | Some pool' \<Rightarrow> Some (tbl\<lparr> tableEntryPool := pool' \<rparr>))"

definition updateIndirectionTexture_Rgba8888 ::
  "TableEntryRgba8888 PageIndirectionTable \<Rightarrow> nat \<Rightarrow> CacheEntry list option
     \<Rightarrow> TableEntryRgba8888 PageIndirectionTable option" where
  "updateIndirectionTexture_Rgba8888 tbl current2DTexture pages =
     updateIndirection (writeEntryRgba8888 tbl) tbl current2DTexture pages"

definition updateIndirectionTexture_Rgb565 ::
  "TableEntryRgb565 PageIndirectionTable \<Rightarrow> nat \<Rightarrow> CacheEntry list option
     \<Rightarrow> TableEntryRgb565 PageIndirectionTable option" where
  "updateIndirectionTexture_Rgb565 tbl current2DTexture pages =
     updateIndirection (writeEntryRgb565 tbl) tbl current2DTexture pages"



text \<open>The shape of a table the constructor builds: between 1 and \<open>MaxVTMipLevels\<close>
  levels of positive size, the levels laid out one after the other in a pool of exactly
  their total size.\<close>

definition table_wf :: "'e PageIndirectionTable \<Rightarrow> bool" where
  "table_wf tbl =
     (0 < it_numLevels tbl \<and> it_numLevels tbl \<le> MaxVTMipLevels
      \<and> list_all (\<lambda>l. 0 < it_numPagesX tbl ! l \<and> 0 < it_numPagesY tbl ! l
                      \<and> tableLevels tbl ! l = levelOffset (it_numPagesX tbl) (it_numPagesY tbl) l)
                 [0..<nat (it_numLevels tbl)]
      \<and> length (tableEntryPool tbl)
          = levelOffset (it_numPagesX tbl) (it_numPagesY tbl) (nat (it_numLevels tbl)))"

text \<open>A mip chain: each level has at least half the pages, in each direction, of the
  level below it.\<close>

definition mipChain :: "'e PageIndirectionTable \<Rightarrow> bool" where
  "mipChain tbl =
     list_all (\<lambda>l. it_numPagesX tbl ! (l - 1) \<le> 2 * it_numPagesX tbl ! l
                    \<and> it_numPagesY tbl ! (l - 1) \<le> 2 * it_numPagesY tbl ! l)
              [1..<nat (it_numLevels tbl)]"

text \<open>Every valid cache entry of a level of the table is a page of that level.\<close>

definition pagesInRange :: "'e PageIndirectionTable \<Rightarrow> CacheEntry list \<Rightarrow> bool" where
  "pagesInRange tbl pages =
     list_all (\<lambda>cacheEntry.
                 pageId cacheEntry = InvalidPageId
                 \<or> it_numLevels tbl \<le> pageIdExtractMipLevel (pageId cacheEntry)
                 \<or> (pageIdExtractPageX (pageId cacheEntry)
                       < it_numPagesX tbl ! nat (pageIdExtractMipLevel (pageId cacheEntry))
                     \<and> pageIdExtractPageY (pageId cacheEntry)
                       < it_numPagesY tbl ! nat (pageIdExtractMipLevel (pageId cacheEntry))))
              pages"

text \<open>The offset and the size of level \<open>l\<close> of a table, and the index of the pool
  that the loop over the cache entries writes for a cache entry, if any.\<close>

definition levelBase :: "'e PageIndirectionTable \<Rightarrow> nat \<Rightarrow> nat" where
  "levelBase tbl l = levelOffset (it_numPagesX tbl) (it_numPagesY tbl) l"

definition levelCells :: "'e PageIndirectionTable \<Rightarrow> nat \<Rightarrow> nat" where
  "levelCells tbl l = nat (it_numPagesX tbl ! l * it_numPagesY tbl ! l)"

definition pageIndex :: "'e PageIndirectionTable \<Rightarrow> nat \<Rightarrow> CacheEntry \<Rightarrow> int" where
  "pageIndex tbl l cacheEntry =
     pageIdExtractPageX (pageId cacheEntry)
       + pageIdExtractPageY (pageId cacheEntry) * it_numPagesX tbl ! l"


text \<open>The indices of the pool that the upsampling of level \<open>l\<close> reads and writes for
  the cell \<open>(x, y)\<close> of level \<open>l - 1\<close>.\<close>

definition srcCell :: "'e PageIndirectionTable \<Rightarrow> nat \<Rightarrow> nat \<times> nat \<Rightarrow> nat" where
  "srcCell tbl l yx =
     tableLevels tbl ! l + (snd yx div 2 + (fst yx div 2) * nat (it_numPagesX tbl ! l))"

definition destCell :: "'e PageIndirectionTable \<Rightarrow> nat \<Rightarrow> nat \<times> nat \<Rightarrow> nat" where
  "destCell tbl l yx =
     tableLevels tbl ! (l - 1) + (snd yx + fst yx * nat (it_numPagesX tbl ! (l - 1)))"

text \<open>Two tables of three levels, of 4 x 4, 2 x 2 and 1 x 1 pages, with the texture
  names 7 and 8, and the entries of a cache that holds page (1, 1) of level 0 and page
  (0, 0) of level 1. Two more tables that are no mip chains: levels of 4 x 4 and 1 x 1
  pages. The memory around each pool holds \<open>0xAA\<close> bytes.\<close>

definition exampleHeapEntry :: TableEntryRgba8888 where
  "exampleHeapEntry =
     \<lparr> cachePageX = 0xAA, cachePageY = 0xAA, scaleHigh = 0xAA, scaleLow = 0xAA \<rparr>"






section \<open>PageTable::uploadPage (vt_page_table.cpp)\<close>

text \<open>\<open>PageUpload\<close> (vt_page_cache_mgr.hpp): the pixel data, here the bytes the pointer
  refers to, and the cache coordinates.\<close>

record PageUpload =
  up_pageData :: "8 word list"
  up_cacheCoord :: CachePageCoord

text \<open>A page table is an OpenGL texture: its name and, in place of the pixels on the GPU,
  the uploads it has received, in order.\<close>

record PageTable =
  pageTextureId :: nat
  uploaded :: "PageUpload list"

text \<open>\<open>uploadPage\<close>: \<open>None\<close> when an assertion fails. \<open>upload.pageData\<close> is never
  null here, it points to the array inside a packet; the two assertions after
  \<open>halveImageBoxFilter\<close> hold for the constant page size.\<close>

definition uploadPage :: "nat \<Rightarrow> PageUpload \<Rightarrow> PageTable \<Rightarrow> PageTable option" where
  "uploadPage current2DTexture upload pageTable =
     (if \<not> uint (fst (up_cacheCoord upload)) < int TableSizeInPages then None
      else if \<not> uint (snd (up_cacheCoord upload)) < int TableSizeInPages then None
      else if pageTextureId pageTable \<noteq> current2DTexture then None
      else Some (pageTable\<lparr> uploaded := uploaded pageTable @ [upload] \<rparr>))"

section \<open>VirtualTexture::frameUpdate (vt_virtual_texture.cpp)\<close>

text \<open>The indirection table of a texture is one of the two classes; \<open>bind\<close> and
  \<open>updateIndirectionTexture\<close> are virtual.\<close>

datatype IndirectionTable =
    TableRgba8888 "TableEntryRgba8888 PageIndirectionTable"
  | TableRgb565 "TableEntryRgb565 PageIndirectionTable"

definition indirectionTable_textureId :: "IndirectionTable \<Rightarrow> nat" where
  "indirectionTable_textureId tbl =
     (case tbl of TableRgba8888 t \<Rightarrow> indirectionTextureId t
                | TableRgb565 t \<Rightarrow> indirectionTextureId t)"

definition updateIndirectionTexture ::
  "IndirectionTable \<Rightarrow> nat \<Rightarrow> CacheEntry list option \<Rightarrow> IndirectionTable option" where
  "updateIndirectionTexture tbl current2DTexture pages =
     (case tbl of
        TableRgba8888 t \<Rightarrow>
          map_option TableRgba8888 (updateIndirectionTexture_Rgba8888 t current2DTexture pages)
      | TableRgb565 t \<Rightarrow>
          map_option TableRgb565 (updateIndirectionTexture_Rgb565 t current2DTexture pages))"

text \<open>The members of \<open>VirtualTexture\<close> that \<open>frameUpdate\<close> uses. \<open>pageProvider\<close> and
  \<open>pageResolver\<close> are pointers the texture does not own: an address, or \<open>None\<close> for
  null. The two counters are \<open>unsigned int\<close>.\<close>

record VirtualTexture =
  pageFiles :: "PageFile list"
  pageTables :: "PageTable list"
  indirectionTable :: IndirectionTable
  pageCacheMgr :: PageCacheMgr
  pageProvider :: "nat option"
  pageResolver :: "nat option"
  textureIndex :: int
  numPageUploads :: "32 word"
  numIndirectionTableUpdates :: "32 word"

text \<open>The state of the loop of \<open>frameUpdate\<close>: the texture, the texture OpenGL has
  bound (what \<open>gl::getCurrent2DTexture()\<close> returns), and the local
  \<open>currentPageTexture\<close>, a pointer to one of the page tables, here its index, or
  null.\<close>

record Frame =
  f_vt :: VirtualTexture
  f_current2DTexture :: nat
  f_currentPageTexture :: "nat option"

text \<open>The bind, if the page table is not the current one, then \<open>uploadPage\<close> and the
  counter. \<open>None\<close> when \<open>uploadPage\<close> fails or there is no page table \<open>t\<close>.\<close>

definition uploadTo :: "nat \<Rightarrow> PageUpload \<Rightarrow> Frame \<Rightarrow> Frame option" where
  "uploadTo t upload f =
     (if \<not> t < length (pageTables (f_vt f)) then None
      else
        let f1 = (if f_currentPageTexture f \<noteq> Some t
                  then f\<lparr> f_currentPageTexture := Some t,
                          f_current2DTexture := pageTextureId (pageTables (f_vt f) ! t) \<rparr>
                  else f)
        in case uploadPage (f_current2DTexture f1) upload (pageTables (f_vt f1) ! t) of
             None \<Rightarrow> None
           | Some pageTable \<Rightarrow>
               Some (f1\<lparr> f_vt := (f_vt f1)\<lparr> pageTables := (pageTables (f_vt f1))[t := pageTable],
                                            numPageUploads := numPageUploads (f_vt f1) + 1 \<rparr> \<rparr>))"

text \<open>The body of the innermost loop, over the whole queue, for the sub-texture \<open>t\<close>.\<close>

definition subUpload ::
  "PageRequestDataPacket \<Rightarrow> CachePageCoord \<Rightarrow> nat \<Rightarrow> PageRequestDataPacket \<Rightarrow> Frame \<Rightarrow> Frame option" where
  "subUpload request coord t subRequest f =
     (if packetPageId subRequest \<noteq> packetPageId request \<or> unat (fileId subRequest) \<noteq> t
      then Some f
      else uploadTo t \<lparr> up_pageData = pageData subRequest, up_cacheCoord = coord \<rparr> f)"

text \<open>One iteration of the outer loop, for \<open>request\<close>; \<open>numPageTables\<close> is the local
  constant. \<open>None\<close> when an assertion of the cache manager or of \<open>uploadPage\<close> fails.\<close>

definition frameRequest ::
  "PageRequestDataPacket list \<Rightarrow> nat \<Rightarrow> PageRequestDataPacket \<Rightarrow> Frame \<Rightarrow> Frame option" where
  "frameRequest pageRequestUploads numPageTables request f =
     (if pageIdExtractTextureIndex (packetPageId request) \<noteq> textureIndex (f_vt f)
         \<or> fileId request \<noteq> 0
      then Some f
      else
        (case stillWantPage (packetPageId request) (pageCacheMgr (f_vt f)) of
           None \<Rightarrow> None
         | Some False \<Rightarrow> Some f
         | Some True \<Rightarrow>
             (case accommodatePage (packetPageId request) (pageCacheMgr (f_vt f)) of
                None \<Rightarrow> None
              | Some (coord, cache1) \<Rightarrow>
                  (case uploadTo 0 \<lparr> up_pageData = pageData request, up_cacheCoord = coord \<rparr>
                          (f\<lparr> f_vt := (f_vt f)\<lparr> pageCacheMgr := cache1 \<rparr> \<rparr>) of
                     None \<Rightarrow> None
                   | Some f1 \<Rightarrow>
                       forEach (\<lambda>t. forEach (subUpload request coord t) pageRequestUploads)
                         [1..<numPageTables] f1))))"

text \<open>The end of \<open>frameUpdate\<close>: with \<open>updateIndirectionTable\<close> set, bind the indirection
  table, update it from the entries of the cache, count the update.\<close>

definition frameFinish :: "bool \<Rightarrow> Frame \<Rightarrow> Frame option" where
  "frameFinish updateIndirectionTable f =
     (if \<not> updateIndirectionTable then Some f
      else
        let bound = indirectionTable_textureId (indirectionTable (f_vt f))
        in case updateIndirectionTexture (indirectionTable (f_vt f)) bound
                  (Some (cacheEntryPool (pageCacheMgr (f_vt f)))) of
             None \<Rightarrow> None
           | Some tbl \<Rightarrow>
               Some (f\<lparr> f_current2DTexture := bound,
                        f_vt := (f_vt f)\<lparr> indirectionTable := tbl,
                                          numIndirectionTableUpdates :=
                                            numIndirectionTableUpdates (f_vt f) + 1 \<rparr> \<rparr>))"

text \<open>\<open>frameUpdate\<close>, from the texture OpenGL has bound and the texture object to the
  two after the call; \<open>None\<close> when an assertion fails.\<close>

definition frameUpdate ::
  "PageRequestDataPacket list \<Rightarrow> bool \<Rightarrow> nat \<times> VirtualTexture \<Rightarrow> (nat \<times> VirtualTexture) option" where
  "frameUpdate pageRequestUploads updateIndirectionTable st =
     (let current2DTexture = fst st; vt = snd st in
      if pageProvider vt = None then None
      else if pageResolver vt = None then None
      else if \<not> textureIndex vt \<ge> 0 then None
      else if length (pageFiles vt) \<noteq> length (pageTables vt) then None
      else if pageRequestUploads = [] then Some (current2DTexture, vt)
      else
        (case forEach (frameRequest pageRequestUploads (length (pageTables vt)))
                pageRequestUploads
                \<lparr> f_vt = vt, f_current2DTexture = current2DTexture,
                  f_currentPageTexture = None \<rparr> of
           None \<Rightarrow> None
         | Some f \<Rightarrow>
             (case frameFinish updateIndirectionTable f of
                None \<Rightarrow> None
              | Some f' \<Rightarrow> Some (f_current2DTexture f', f_vt f'))))"

text \<open>A completion that passes the first two tests of the loop: it is for this
  texture and comes from page file 0.\<close>

definition mainCompletion :: "VirtualTexture \<Rightarrow> PageRequestDataPacket \<Rightarrow> bool" where
  "mainCompletion vt request =
     (pageIdExtractTextureIndex (packetPageId request) = textureIndex vt \<and> fileId request = 0)"

text \<open>The cache coordinates of every entry are inside the page table, as the
  constructor of the cache manager sets them.\<close>

definition coordInTable :: "CachePageCoord \<Rightarrow> bool" where
  "coordInTable c =
     (uint (fst c) < int TableSizeInPages \<and> uint (snd c) < int TableSizeInPages)"

definition coords_ok :: "PageCacheMgr \<Rightarrow> bool" where
  "coords_ok s = list_all (\<lambda>en. coordInTable (cacheCoord en)) (cacheEntryPool s)"

text \<open>The indirection table of a texture has the shape its constructor builds and the
  page counts of the texture's cache; the constructor of \<open>VirtualTexture\<close> makes both
  from the same arrays, unless the caller supplies a table.\<close>

definition indirection_ok :: "VirtualTexture \<Rightarrow> bool" where
  "indirection_ok vt =
     (case indirectionTable vt of
        TableRgba8888 t \<Rightarrow>
          table_wf t \<and> it_numLevels t = numLevels (cachePageTree (pageCacheMgr vt))
          \<and> it_numPagesX t = numPagesX (cachePageTree (pageCacheMgr vt))
          \<and> it_numPagesY t = numPagesY (cachePageTree (pageCacheMgr vt))
      | TableRgb565 t \<Rightarrow>
          table_wf t \<and> it_numLevels t = numLevels (cachePageTree (pageCacheMgr vt))
          \<and> it_numPagesX t = numPagesX (cachePageTree (pageCacheMgr vt))
          \<and> it_numPagesY t = numPagesY (cachePageTree (pageCacheMgr vt)))"

text \<open>A texture on which the assertions of \<open>frameUpdate\<close> hold: provider and resolver
  set, an index, a page table for each page file and at least one of them, a cache that
  satisfies its invariant.\<close>

definition texture_ok :: "VirtualTexture \<Rightarrow> bool" where
  "texture_ok vt =
     (pageProvider vt \<noteq> None \<and> pageResolver vt \<noteq> None \<and> 0 \<le> textureIndex vt
      \<and> length (pageFiles vt) = length (pageTables vt) \<and> 0 < length (pageTables vt)
      \<and> cache_inv (pageCacheMgr vt) \<and> coords_ok (pageCacheMgr vt)
      \<and> indirection_ok vt)"

text \<open>Inside the loop the texture OpenGL has bound is the page table that
  \<open>currentPageTexture\<close> points to.\<close>

definition frame_ok :: "Frame \<Rightarrow> bool" where
  "frame_ok f =
     (texture_ok (f_vt f)
      \<and> (case f_currentPageTexture f of
            None \<Rightarrow> True
          | Some t \<Rightarrow> t < length (pageTables (f_vt f))
                      \<and> f_current2DTexture f = pageTextureId (pageTables (f_vt f) ! t)))"

text \<open>Two states of a texture that differ at most in what the page tables have
  received and in the count of uploads.\<close>

definition sameButUploads :: "VirtualTexture \<Rightarrow> VirtualTexture \<Rightarrow> bool" where
  "sameButUploads vt vt' =
     (pageFiles vt' = pageFiles vt
      \<and> map pageTextureId (pageTables vt') = map pageTextureId (pageTables vt)
      \<and> indirectionTable vt' = indirectionTable vt
      \<and> pageCacheMgr vt' = pageCacheMgr vt
      \<and> pageProvider vt' = pageProvider vt \<and> pageResolver vt' = pageResolver vt
      \<and> textureIndex vt' = textureIndex vt
      \<and> numIndirectionTableUpdates vt' = numIndirectionTableUpdates vt)"

text \<open>The number of uploads that the loops over the sub-textures make for \<open>request\<close>:
  one for each packet of the queue with the same page id and a file id \<open>t\<close> between 1
  and \<open>numPageTables - 1\<close>.\<close>

definition subUploadCount :: "PageRequestDataPacket list \<Rightarrow> PageRequestDataPacket \<Rightarrow> nat \<Rightarrow> nat" where
  "subUploadCount pageRequestUploads request numPageTables =
     sum_list (map (\<lambda>t. length (filter (\<lambda>subRequest.
                                       packetPageId subRequest = packetPageId request
                                       \<and> unat (fileId subRequest) = t)
                                  pageRequestUploads))
                [1..<numPageTables])"

text \<open>Example objects: the example cache after the first request for page
  (x = 3, y = 5, level 0) of texture 0; a texture with one page file and one page table
  (texture name 3) that owns this cache and an RGBA indirection table (texture name 7)
  for the same five levels; a completed load of that page from page file 0.\<close>

definition exampleInFlight :: PageCacheMgr where
  "exampleInFlight = snd (the (lookupPage (makePageId 3 5 0 0) exampleCache))"

definition exampleIndirection :: "TableEntryRgba8888 PageIndirectionTable" where
  "exampleIndirection =
     the (PageIndirectionTableRgba8888_new [16, 8, 4, 2, 1] [16, 8, 4, 2, 1] 5 7
            (\<lambda>a. exampleHeapEntry))"

definition exampleTexture :: VirtualTexture where
  "exampleTexture =
     \<lparr> pageFiles = [\<lambda>pid. []],
       pageTables = [\<lparr> pageTextureId = 3, uploaded = [] \<rparr>],
       indirectionTable = TableRgba8888 exampleIndirection,
       pageCacheMgr = exampleInFlight,
       pageProvider = Some 1, pageResolver = Some 2, textureIndex = 0,
       numPageUploads = 0, numIndirectionTableUpdates = 0 \<rparr>"

definition examplePacket :: PageRequestDataPacket where
  "examplePacket = \<lparr> packetPageId = makePageId 3 5 0 0, fileId = 0, pageData = [] \<rparr>"

section \<open>PageId codec: lemmas\<close>

lemma mask8: "(0xFF::32 word) = mask 8"
  by (simp add: mask_eq_exp_minus_1)

lemma uint_small:
  assumes "0 \<le> v" "v \<le> 255"
  shows "uint ((word_of_int v :: 32 word) AND 0xFF) = v"
proof -
  have "uint ((word_of_int v :: 32 word) AND mask 8) = take_bit 8 (uint (word_of_int v :: 32 word))"
    by (simp only: unsigned_take_bit_eq flip: take_bit_eq_mask)
  also have "\<dots> = take_bit 8 (take_bit 32 v)"
    by (simp add: uint_word_of_int_eq)
  also have "\<dots> = take_bit 8 v" by simp
  also have "\<dots> = v" using assms by (simp add: take_bit_int_eq_self)
  finally show ?thesis by (simp only: mask8)
qed

lemma and_ff_range: "0 \<le> uint ((w::32 word) AND 0xFF) \<and> uint (w AND 0xFF) \<le> 255"
proof -
  have "uint (w AND mask 8) = take_bit 8 (uint w)"
    by (simp only: unsigned_take_bit_eq flip: take_bit_eq_mask)
  moreover have "take_bit 8 (uint w) < 2 ^ 8" by (rule take_bit_int_less_exp)
  moreover have "0 \<le> take_bit 8 (uint w)" by simp
  ultimately show ?thesis by (simp only: mask8) simp
qed

lemma extractX_alt: "pageIdExtractPageX p = uint (p AND 0xFF)"
  by (simp add: pageIdExtractPageX_def)

lemma extractY_alt: "pageIdExtractPageY p = uint (drop_bit 8 p AND 0xFF)"
  unfolding pageIdExtractPageY_def
  by (rule arg_cong[where f=uint], rule bit_word_eqI) (auto simp add: bit_simps mask8)

lemma extractL_alt: "pageIdExtractMipLevel p = uint (drop_bit 16 p AND 0xFF)"
  unfolding pageIdExtractMipLevel_def
  by (rule arg_cong[where f=uint], rule bit_word_eqI) (auto simp add: bit_simps mask8)

lemma extractT_alt: "pageIdExtractTextureIndex p = uint (drop_bit 24 p AND 0xFF)"
  unfolding pageIdExtractTextureIndex_def
  by (rule arg_cong[where f=uint], rule bit_word_eqI) (auto simp add: bit_simps mask8)

lemma extract_ranges:
  "0 \<le> pageIdExtractPageX p" "pageIdExtractPageX p \<le> 255"
  "0 \<le> pageIdExtractPageY p" "pageIdExtractPageY p \<le> 255"
  "0 \<le> pageIdExtractMipLevel p" "pageIdExtractMipLevel p \<le> 255"
  "0 \<le> pageIdExtractTextureIndex p" "pageIdExtractTextureIndex p \<le> 255"
  using and_ff_range[of p] and_ff_range[of "drop_bit 8 p"] and_ff_range[of "drop_bit 16 p"]
    and_ff_range[of "drop_bit 24 p"]
  by (simp_all only: extractX_alt extractY_alt extractL_alt extractT_alt)

lemma extractX_make: "pageIdExtractPageX (makePageId a b c d) = uint (a AND 0xFF)"
  unfolding pageIdExtractPageX_def makePageId_def
  by (rule arg_cong[where f=uint], rule bit_word_eqI) (auto simp add: bit_simps mask8)

lemma extractY_make: "pageIdExtractPageY (makePageId a b c d) = uint (b AND 0xFF)"
  unfolding pageIdExtractPageY_def makePageId_def
  by (rule arg_cong[where f=uint], rule bit_word_eqI) (auto simp add: bit_simps mask8)

lemma extractL_make: "pageIdExtractMipLevel (makePageId a b c d) = uint (c AND 0xFF)"
  unfolding pageIdExtractMipLevel_def makePageId_def
  by (rule arg_cong[where f=uint], rule bit_word_eqI) (auto simp add: bit_simps mask8)

lemma extractT_make: "pageIdExtractTextureIndex (makePageId a b c d) = uint (d AND 0xFF)"
  unfolding pageIdExtractTextureIndex_def makePageId_def
  by (rule arg_cong[where f=uint], rule bit_word_eqI) (auto simp add: bit_simps mask8)

lemma extract_make_int:
  assumes "0 \<le> a" "a \<le> 255" "0 \<le> b" "b \<le> 255" "0 \<le> c" "c \<le> 255" "0 \<le> d" "d \<le> 255"
  shows "pageIdExtractPageX (makePageId (word_of_int a) (word_of_int b) (word_of_int c) (word_of_int d)) = a"
    and "pageIdExtractPageY (makePageId (word_of_int a) (word_of_int b) (word_of_int c) (word_of_int d)) = b"
    and "pageIdExtractMipLevel (makePageId (word_of_int a) (word_of_int b) (word_of_int c) (word_of_int d)) = c"
    and "pageIdExtractTextureIndex (makePageId (word_of_int a) (word_of_int b) (word_of_int c) (word_of_int d)) = d"
  using assms by (simp_all only: extractX_make extractY_make extractL_make extractT_make uint_small)

text \<open>The fields of an id written with numerals, for the concrete inputs below.\<close>

lemma extract_make_num:
  assumes "uint a \<le> 255" "uint b \<le> 255" "uint c \<le> 255" "uint d \<le> 255"
  shows "pageIdExtractPageX (makePageId a b c d) = uint a"
    and "pageIdExtractPageY (makePageId a b c d) = uint b"
    and "pageIdExtractMipLevel (makePageId a b c d) = uint c"
    and "pageIdExtractTextureIndex (makePageId a b c d) = uint d"
  using extract_make_int[of "uint a" "uint b" "uint c" "uint d"] assms by simp_all

section \<open>The tree the constructor builds\<close>

lemma tree_wf_new:
  assumes "CachePageTree_new vtPagesX vtPagesY n = Some t"
  shows "tree_wf t"
  using assms
  by (auto simp: CachePageTree_new_def tree_wf_def MaxVTMipLevels_def list_all_iff nth_append
           split: if_splits)

lemma tree_wf_clear: "tree_wf t \<Longrightarrow> tree_wf (CachePageTree_clear t)"
  by (auto simp: tree_wf_def CachePageTree_clear_def list_all_iff)

lemma tree_wf_level:
  assumes "tree_wf t" "0 \<le> l" "l < numLevels t"
  shows "0 < getNumPagesX t l" "0 < getNumPagesY t l"
    "length (levels t ! nat l) = nat (getNumPagesX t l * getNumPagesY t l)"
  using assms by (auto simp: tree_wf_def getNumPagesX_def getNumPagesY_def list_all_iff)

lemma PageCacheMgr_new_tree_wf:
  assumes "PageCacheMgr_new vtPagesX vtPagesY n = Some s"
  shows "tree_wf (cachePageTree s)"
  using assms
  by (auto simp: PageCacheMgr_new_def purgeCache_def tree_wf_new tree_wf_clear
           split: bind_splits)

lemma PageCacheMgr_new_tree:
  assumes "PageCacheMgr_new vtPagesX vtPagesY n = Some s"
  shows "numLevels (cachePageTree s) = n"
    and "numPagesX (cachePageTree s) = take (nat n) vtPagesX @ replicate (nat MaxVTMipLevels - nat n) 0"
    and "numPagesY (cachePageTree s) = take (nat n) vtPagesY @ replicate (nat MaxVTMipLevels - nat n) 0"
    and "nat n \<le> length vtPagesX" and "nat n \<le> length vtPagesY"
  using assms
  by (auto simp: PageCacheMgr_new_def purgeCache_def CachePageTree_new_def CachePageTree_clear_def
           split: bind_splits if_splits)

lemma PageCacheMgr_new_pages:
  assumes "PageCacheMgr_new vtPagesX vtPagesY n = Some s" "0 \<le> l" "l < n"
  shows "getNumPagesX (cachePageTree s) l = vtPagesX ! nat l"
    and "getNumPagesY (cachePageTree s) l = vtPagesY ! nat l"
  using assms(2,3) PageCacheMgr_new_tree[OF assms(1)]
  by (auto simp: getNumPagesX_def getNumPagesY_def nth_append)

lemma exampleTree_new: "CachePageTree_new [16, 8, 4, 2, 1] [16, 8, 4, 2, 1] 5 \<noteq> None"
  by code_simp

lemma exampleCache_new: "PageCacheMgr_new [16, 8, 4, 2, 1] [16, 8, 4, 2, 1] 5 = Some exampleCache"
  using exampleTree_new by (auto simp: exampleCache_def PageCacheMgr_new_def split: bind_splits)

lemma exampleCache_tree_wf: "tree_wf (cachePageTree exampleCache)"
  by (rule PageCacheMgr_new_tree_wf[OF exampleCache_new])

lemma exampleCache_numLevels: "numLevels (cachePageTree exampleCache) = 5"
  by (rule PageCacheMgr_new_tree(1)[OF exampleCache_new])

lemma exampleCache_pages:
  "getNumPagesX (cachePageTree exampleCache) 0 = 16" "getNumPagesY (cachePageTree exampleCache) 0 = 16"
  "getNumPagesX (cachePageTree exampleCache) 4 = 1" "getNumPagesY (cachePageTree exampleCache) 4 = 1"
  using PageCacheMgr_new_pages[OF exampleCache_new, of 0] PageCacheMgr_new_pages[OF exampleCache_new, of 4]
  by simp_all

section \<open>sanitizePageId\<close>

lemma sanitize_fields:
  assumes wf: "tree_wf (cachePageTree s)"
  shows "pageIdExtractMipLevel (sanitizePageId s pid)
           = min (pageIdExtractMipLevel pid) (numLevels (cachePageTree s) - 1)"
    and "pageIdExtractPageX (sanitizePageId s pid)
           = min (pageIdExtractPageX pid)
               (getNumPagesX (cachePageTree s) (pageIdExtractMipLevel (sanitizePageId s pid)) - 1)"
    and "pageIdExtractPageY (sanitizePageId s pid)
           = min (pageIdExtractPageY pid)
               (getNumPagesY (cachePageTree s) (pageIdExtractMipLevel (sanitizePageId s pid)) - 1)"
    and "pageIdExtractTextureIndex (sanitizePageId s pid) = pageIdExtractTextureIndex pid"
proof -
  let ?t = "cachePageTree s"
  define lv where "lv = min (pageIdExtractMipLevel pid) (numLevels ?t - 1)"
  define nx where "nx = min (pageIdExtractPageX pid) (getNumPagesX ?t lv - 1)"
  define ny where "ny = min (pageIdExtractPageY pid) (getNumPagesY ?t lv - 1)"
  have nl: "0 < numLevels ?t" "numLevels ?t \<le> 16"
    using wf by (simp_all add: tree_wf_def MaxVTMipLevels_def)
  have lv: "0 \<le> lv" "lv < numLevels ?t" "lv \<le> 255"
    using nl extract_ranges(5,6)[of pid] by (auto simp: lv_def)
  have pos: "0 < getNumPagesX ?t lv" "0 < getNumPagesY ?t lv"
    using tree_wf_level[OF wf lv(1,2)] by simp_all
  have nx: "0 \<le> nx" "nx \<le> 255" using pos extract_ranges(1,2)[of pid] by (auto simp: nx_def)
  have ny: "0 \<le> ny" "ny \<le> 255" using pos extract_ranges(3,4)[of pid] by (auto simp: ny_def)
  have eq: "sanitizePageId s pid = makePageId (word_of_int nx) (word_of_int ny) (word_of_int lv)
              (word_of_int (pageIdExtractTextureIndex pid))"
    by (auto simp: sanitizePageId_def Let_def lv_def nx_def ny_def min_def)
  note em = extract_make_int[OF nx ny lv(1,3) extract_ranges(7,8)[of pid]]
  show l: "pageIdExtractMipLevel (sanitizePageId s pid)
           = min (pageIdExtractMipLevel pid) (numLevels (cachePageTree s) - 1)"
    using em(3) by (simp add: eq lv_def)
  show "pageIdExtractPageX (sanitizePageId s pid)
           = min (pageIdExtractPageX pid)
               (getNumPagesX (cachePageTree s) (pageIdExtractMipLevel (sanitizePageId s pid)) - 1)"
    unfolding l using em(1) by (simp add: eq nx_def lv_def)
  show "pageIdExtractPageY (sanitizePageId s pid)
           = min (pageIdExtractPageY pid)
               (getNumPagesY (cachePageTree s) (pageIdExtractMipLevel (sanitizePageId s pid)) - 1)"
    unfolding l using em(2) by (simp add: eq ny_def lv_def)
  show "pageIdExtractTextureIndex (sanitizePageId s pid) = pageIdExtractTextureIndex pid"
    using em(4) by (simp add: eq)
qed

text \<open>Claim C8, as the code has it. For every PageId, on a well-formed tree,
  \<open>sanitizePageId\<close> clamps the mip level to \<open>numLevels - 1\<close>, then clamps x and y to
  the page extents of that clamped level minus one, and keeps the texture index. For
  the input (level = 255, x = 255, y = 255) the result is
  (\<open>numLevels - 1\<close>, \<open>numPagesX - 1\<close>, \<open>numPagesY - 1\<close>) of the last level provided that
  level is at most 256 pages wide and high: an 8-bit coordinate of 255 is in range on
  a wider level and is returned as it is.\<close>

theorem sanitizePageId_clamps:
  assumes "tree_wf (cachePageTree s)"
  shows "pageIdExtractMipLevel (sanitizePageId s pid)
           = min (pageIdExtractMipLevel pid) (numLevels (cachePageTree s) - 1)
       \<and> pageIdExtractPageX (sanitizePageId s pid)
           = min (pageIdExtractPageX pid)
               (getNumPagesX (cachePageTree s) (pageIdExtractMipLevel (sanitizePageId s pid)) - 1)
       \<and> pageIdExtractPageY (sanitizePageId s pid)
           = min (pageIdExtractPageY pid)
               (getNumPagesY (cachePageTree s) (pageIdExtractMipLevel (sanitizePageId s pid)) - 1)
       \<and> pageIdExtractTextureIndex (sanitizePageId s pid) = pageIdExtractTextureIndex pid
       \<and> (pageIdExtractMipLevel pid = 255 \<and> pageIdExtractPageX pid = 255
            \<and> pageIdExtractPageY pid = 255
            \<and> getNumPagesX (cachePageTree s) (numLevels (cachePageTree s) - 1) \<le> 256
            \<and> getNumPagesY (cachePageTree s) (numLevels (cachePageTree s) - 1) \<le> 256
          \<longrightarrow> pageIdExtractMipLevel (sanitizePageId s pid) = numLevels (cachePageTree s) - 1
              \<and> pageIdExtractPageX (sanitizePageId s pid)
                  = getNumPagesX (cachePageTree s) (numLevels (cachePageTree s) - 1) - 1
              \<and> pageIdExtractPageY (sanitizePageId s pid)
                  = getNumPagesY (cachePageTree s) (numLevels (cachePageTree s) - 1) - 1)"
proof -
  note f = sanitize_fields[OF assms, of pid]
  have nl: "numLevels (cachePageTree s) \<le> 16"
    using assms by (simp add: tree_wf_def MaxVTMipLevels_def)
  show ?thesis
    using nl by (intro conjI impI; (rule f)?) (auto simp: f)
qed

theorem sanitizePageId_clamps_witness:
  "tree_wf (cachePageTree exampleCache)
   \<and> pageIdExtractMipLevel (sanitizePageId exampleCache (makePageId 255 255 255 7)) = 4
   \<and> pageIdExtractPageX (sanitizePageId exampleCache (makePageId 255 255 255 7)) = 0
   \<and> pageIdExtractPageY (sanitizePageId exampleCache (makePageId 255 255 255 7)) = 0
   \<and> pageIdExtractTextureIndex (sanitizePageId exampleCache (makePageId 255 255 255 7)) = 7"
  using sanitizePageId_clamps[OF exampleCache_tree_wf, of "makePageId 255 255 255 7"]
  by (simp add: exampleCache_tree_wf exampleCache_numLevels exampleCache_pages extract_make_num)

text \<open>The claim as the spec states it fails on a level wider than 256 pages: a cache
  built for one level of 512 x 1 pages returns x = 255 for (255, 255, 255), not
  \<open>numPagesX - 1 = 511\<close>.\<close>

theorem sanitizePageId_wide_level_counterexample:
  "PageCacheMgr_new [512] [1] 1 \<noteq> None
   \<and> numLevels (cachePageTree (the (PageCacheMgr_new [512] [1] 1))) = 1
   \<and> getNumPagesX (cachePageTree (the (PageCacheMgr_new [512] [1] 1))) 0 - 1 = 511
   \<and> pageIdExtractPageX
        (sanitizePageId (the (PageCacheMgr_new [512] [1] 1)) (makePageId 255 255 255 0)) = 255"
  by (simp add: PageCacheMgr_new_def CachePageTree_new_def MaxVTMipLevels_def purgeCache_def
      CachePageTree_clear_def sanitizePageId_def getNumPagesX_def getNumPagesY_def Let_def
      pageIdExtractPageX_def pageIdExtractPageY_def pageIdExtractMipLevel_def
      pageIdExtractTextureIndex_def makePageId_def)

section \<open>VTFFPageFile: the power-of-two check\<close>

text \<open>Claim C10. \<open>isPowerOfTwo\<close> returns true for 0, so a mip level header whose
  \<open>numPagesX\<close> or \<open>numPagesY\<close> is zero does not raise the corresponding
  "is not a power-of-2" fatal error in the constructor's validation pass; a header with
  both counts (and both pixel sizes) zero passes all three header checks.\<close>

theorem isPowerOfTwo_accepts_zero:
  "isPowerOfTwo 0
   \<and> (li_numPagesX levelInfo = 0
        \<longrightarrow> validateMipLevelInfo headerPageSize levelInfo \<noteq> Some NumPagesXNotPowerOfTwo)
   \<and> (li_numPagesY levelInfo = 0
        \<longrightarrow> validateMipLevelInfo headerPageSize levelInfo \<noteq> Some NumPagesYNotPowerOfTwo)
   \<and> (li_numPagesX levelInfo = 0 \<and> li_numPagesY levelInfo = 0
        \<and> li_width levelInfo = 0 \<and> li_height levelInfo = 0
        \<longrightarrow> validateMipLevelInfo headerPageSize levelInfo = None)"
  by (auto simp: isPowerOfTwo_def validateMipLevelInfo_def)

theorem isPowerOfTwo_accepts_zero_witness:
  "li_numPagesX \<lparr> li_width = 0, li_height = 0, li_numPagesX = 0, li_numPagesY = 0 \<rparr> = 0
   \<and> isPowerOfTwo 0
   \<and> validateMipLevelInfo 128 \<lparr> li_width = 0, li_height = 0, li_numPagesX = 0, li_numPagesY = 0 \<rparr>
       = None"
  using isPowerOfTwo_accepts_zero
          [of "\<lparr> li_width = 0, li_height = 0, li_numPagesX = 0, li_numPagesY = 0 \<rparr>" 128]
  by simp

section \<open>VTFFPageFile::loadPage: soft failure\<close>

text \<open>Claim C7. For every call of \<open>loadPage\<close> in which an error occurs (the id is the
  invalid sentinel, the seek to the page's offset fails, or the read is short) the
  function returns normally with \<open>pageData\<close> zero-filled and exactly one diagnostic
  appended to the log; the other fields of the packet are untouched.\<close>

theorem loadPage_fails_soft:
  assumes "loadPage_error pid pf"
  shows "\<exists>pf' d. loadPage addDebugInfoToPageData pid pageRequest (pf, lg)
                   = Some (pageRequest\<lparr> pageData := replicate PageDataBytes 0 \<rparr>, pf', lg @ [d])"
proof -
  have pos: "0 < PageDataBytes" by (simp add: PageDataBytes_def)
  show ?thesis
    using assms pos
    by (auto simp: loadPage_error_def loadPage_def fseek_set_def fread1_def Let_def
             split: option.splits)
qed

lemma truncatedPageFile_error: "loadPage_error (makePageId 0 0 0 0) truncatedPageFile"
  by (simp add: loadPage_error_def truncatedPageFile_def VTFFPageTree_get_def makePageId_def
        pageIdExtractPageX_def pageIdExtractPageY_def pageIdExtractMipLevel_def InvalidPageId_def
        PageDataBytes_def)

theorem loadPage_fails_soft_witness:
  "loadPage_error (makePageId 0 0 0 0) truncatedPageFile
   \<and> map_option (pageData \<circ> fst)
        (loadPage (\<lambda>_ _ _ b. b) (makePageId 0 0 0 0)
           \<lparr> packetPageId = makePageId 0 0 0 0, fileId = 0, pageData = [] \<rparr>
           (truncatedPageFile, []))
       = Some (replicate PageDataBytes 0)"
  using loadPage_fails_soft[OF truncatedPageFile_error, of "\<lambda>_ _ _ b. b"
          "\<lparr> packetPageId = makePageId 0 0 0 0, fileId = 0, pageData = [] \<rparr>" "[]"]
    truncatedPageFile_error
  by auto

section \<open>PageProvider: the bound on outstanding requests\<close>

text \<open>Claim C4 at its failing input. With a texture of three page files and no
  completion in between, 85 accepted requests bring \<open>outstandingRequests\<close> to 255; the
  86th finds the counter different from \<open>MaxOutstandingPageRequests\<close>, is accepted and
  dispatches three more loads, which takes the counter to 258; the limit, tested with
  \<open>==\<close>, has been stepped over, and the next request is accepted as well.\<close>

theorem addPageRequest_exceeds_limit:
  "map_option outstandingRequests
     (providerRun (replicate 85 (AddPageRequest (makePageId 0 0 0 0))) exampleProvider) = Some 255
   \<and> map_option outstandingRequests
       (providerRun (replicate 86 (AddPageRequest (makePageId 0 0 0 0))) exampleProvider) = Some 258
   \<and> map_option outstandingRequests
       (providerRun (replicate 87 (AddPageRequest (makePageId 0 0 0 0))) exampleProvider) = Some 261"
  by code_simp

section \<open>Neighbours in a list\<close>

lemma succ_in_Cons: "succ_in (y # zs) x = (if zs = [] then None else if x = y then Some (hd zs) else succ_in zs x)"
  by (cases zs) auto

lemma pred_in_Cons: "pred_in (y # zs) x = (if zs = [] then None else if x = hd zs then Some y else pred_in zs x)"
  by (cases zs) auto

lemma succ_in_mem: "succ_in ns x = Some y \<Longrightarrow> x \<in> set ns \<and> y \<in> set ns"
  by (induction ns x rule: succ_in.induct) (auto split: if_splits)

lemma pred_in_mem: "pred_in ns x = Some y \<Longrightarrow> x \<in> set ns \<and> y \<in> set ns"
  by (induction ns x rule: pred_in.induct) (auto split: if_splits)

lemma succ_in_notin: "x \<notin> set ns \<Longrightarrow> succ_in ns x = None"
  by (induction ns x rule: succ_in.induct) auto

lemma pred_in_notin: "x \<notin> set ns \<Longrightarrow> pred_in ns x = None"
  by (induction ns x rule: pred_in.induct) auto

lemma pred_in_hd: "distinct ns \<Longrightarrow> x \<in> set ns \<Longrightarrow> pred_in ns x = None \<longleftrightarrow> x = hd ns"
  by (induction ns x rule: pred_in.induct) (auto dest: pred_in_mem simp: pred_in_notin)

lemma succ_pred: "distinct ns \<Longrightarrow> succ_in ns x = Some y \<longleftrightarrow> pred_in ns y = Some x"
proof (induction ns x rule: succ_in.induct)
  case (3 y' z zs x)
  then show ?case
    using pred_in_hd[of "z # zs" z] pred_in_notin[of y' "z # zs"]
    by (auto dest: pred_in_mem succ_in_mem)
qed auto

lemma succ_in_last: "distinct ns \<Longrightarrow> x \<in> set ns \<Longrightarrow> succ_in ns x = None \<longleftrightarrow> x = last ns"
  by (induction ns x rule: succ_in.induct) (auto dest: succ_in_mem)

lemma succ_in_neq: "distinct ns \<Longrightarrow> succ_in ns x \<noteq> Some x"
  by (induction ns x rule: succ_in.induct) (auto dest: succ_in_mem)

lemma succ_in_remove1:
  "distinct ns \<Longrightarrow> x \<noteq> e \<Longrightarrow>
   succ_in (remove1 e ns) x = (if succ_in ns x = Some e then succ_in ns e else succ_in ns x)"
proof (induction ns x rule: succ_in.induct)
  case (3 y z zs x)
  then show ?case
    by (cases zs) (auto dest: succ_in_mem simp: succ_in_notin)
qed auto

lemma pred_in_remove1:
  "distinct ns \<Longrightarrow> x \<noteq> e \<Longrightarrow>
   pred_in (remove1 e ns) x = (if pred_in ns x = Some e then pred_in ns e else pred_in ns x)"
proof (induction ns x rule: pred_in.induct)
  case (3 y z zs x)
  then show ?case
    by (cases zs) (auto dest: pred_in_mem simp: pred_in_notin)
qed auto

lemma hd_remove1: "ns \<noteq> [] \<Longrightarrow> e \<noteq> hd ns \<Longrightarrow> hd (remove1 e ns) = hd ns"
  by (cases ns) auto

lemma remove1_nonempty: "e \<in> set ns \<Longrightarrow> e \<noteq> hd ns \<Longrightarrow> remove1 e ns \<noteq> []"
  by (cases ns) auto

lemma succ_in_front:
  assumes "distinct ns" "e \<in> set ns" "e \<noteq> hd ns" "x \<in> set ns"
  shows "succ_in (e # remove1 e ns) x =
           (if x = e then Some (hd ns)
            else if succ_in ns x = Some e then succ_in ns e else succ_in ns x)"
proof -
  have ne: "ns \<noteq> []" using assms by auto
  show ?thesis
    using assms ne
    by (simp add: succ_in_Cons remove1_nonempty hd_remove1 succ_in_remove1)
qed

lemma pred_in_front:
  assumes "distinct ns" "e \<in> set ns" "e \<noteq> hd ns" "x \<in> set ns"
  shows "pred_in (e # remove1 e ns) x =
           (if x = e then None
            else if x = hd ns then Some e
            else if pred_in ns x = Some e then pred_in ns e else pred_in ns x)"
proof -
  have ne: "ns \<noteq> []" using assms by auto
  have "e \<notin> set (remove1 e ns)" using assms by simp
  then have "pred_in (remove1 e ns) e = None" by (rule pred_in_notin)
  then show ?thesis
    using assms ne
    by (auto simp add: pred_in_Cons remove1_nonempty hd_remove1 pred_in_remove1)
qed

lemma last_remove1:
  "distinct ns \<Longrightarrow> e \<in> set ns \<Longrightarrow> e \<noteq> hd ns \<Longrightarrow>
   last (e # remove1 e ns) = (if e = last ns then the (pred_in ns e) else last ns)"
proof (induction ns e rule: pred_in.induct)
  case (3 y z zs x)
  then show ?case
    by (cases zs) (auto)
qed auto

lemma succ_in_upt: "a \<le> x \<Longrightarrow> x < b \<Longrightarrow> succ_in [a..<b] x = (if Suc x = b then None else Some (Suc x))"
proof (induction "b - a" arbitrary: a)
  case 0
  then show ?case by simp
next
  case (Suc n)
  then have ab: "a < b" by simp
  show ?case
  proof (cases "Suc a = b")
    case True
    then show ?thesis using Suc.prems by (simp add: upt_rec[of a b] )
  next
    case False
    with ab have "Suc a < b" by simp
    then show ?thesis
      using Suc.hyps(1)[of "Suc a"] Suc.hyps(2) Suc.prems ab
      by (subst upt_rec[of a b]) (auto simp add: succ_in_Cons upt_rec[of "Suc a" b] )
  qed
qed

lemma pred_in_upt: "a \<le> x \<Longrightarrow> x < b \<Longrightarrow> pred_in [a..<b] x = (if x = a then None else Some (x - 1))"
proof (induction "b - a" arbitrary: a)
  case 0
  then show ?case by simp
next
  case (Suc n)
  then have ab: "a < b" by simp
  show ?case
  proof (cases "Suc a = b")
    case True
    then show ?thesis using Suc.prems by (simp add: upt_rec[of a b] )
  next
    case False
    with ab have "Suc a < b" by simp
    then show ?thesis
      using Suc.hyps(1)[of "Suc a"] Suc.hyps(2) Suc.prems ab
      by (subst upt_rec[of a b]) (auto simp add: pred_in_Cons upt_rec[of "Suc a" b] pred_in_notin)
  qed
qed

section \<open>The chain and the walk\<close>

lemma TotalCachePages_eq: "TotalCachePages = 256"
  by (simp add: TotalCachePages_def CacheSizeInPages_def)

lemma succ_in_append:
  "distinct (as @ b # bs) \<Longrightarrow> succ_in (as @ b # bs) b = (case bs of [] \<Rightarrow> None | c # _ \<Rightarrow> Some c)"
proof (induction as)
  case Nil
  then show ?case by (cases bs) auto
next
  case (Cons a as)
  then show ?case by (cases as) (auto simp: succ_in_Cons)
qed

lemma walk_chain_suffix:
  assumes "distinct (as @ bs)" "\<forall>x\<in>set bs. nextp (pool ! x) = succ_in (as @ bs) x"
    "bs \<noteq> []" "length bs \<le> fuel"
  shows "walk pool fuel (Some (hd bs)) = bs"
  using assms
proof (induction bs arbitrary: as fuel)
  case Nil
  then show ?case by simp
next
  case (Cons b bs)
  obtain f where f: "fuel = Suc f" using Cons.prems(4) by (cases fuel) auto
  have nb: "nextp (pool ! b) = (case bs of [] \<Rightarrow> None | c # _ \<Rightarrow> Some c)"
    using Cons.prems(1,2) succ_in_append[of as b bs] by simp
  show ?case
  proof (cases bs)
    case Nil
    then show ?thesis using nb f by (cases f) simp_all
  next
    case (Cons c cs)
    have "walk pool f (Some (hd bs)) = bs"
      using Cons.IH[of "as @ [b]" f] Cons.prems f Cons by simp
    then show ?thesis using nb f Cons by simp
  qed
qed

lemma chain_of_order:
  assumes "chain_of s ns"
  shows "lru_order s = ns"
proof -
  have ne: "ns \<noteq> []" using assms by (auto simp: chain_of_def TotalCachePages_eq)
  have "walk (cacheEntryPool s) (Suc TotalCachePages) (Some (hd ns)) = ns"
    using assms ne
    by (intro walk_chain_suffix[of "[]" ns, simplified])
       (auto simp: chain_of_def chain_def list_all_iff)
  then show ?thesis using assms by (simp add: lru_order_def chain_of_def)
qed

lemma lru_chain_ok_iff: "lru_chain_ok s \<longleftrightarrow> (\<exists>ns. chain_of s ns)"
  using chain_of_order by (auto simp: lru_chain_ok_def)


lemma chain_mem:
  assumes "chain pool ns" "x \<in> set ns"
  shows "x < length pool" "prevp (pool ! x) = pred_in ns x" "nextp (pool ! x) = succ_in ns x"
  using assms by (auto simp: chain_def list_all_iff)

lemma move_front_chain:
  assumes ch: "chain pool ns" and e: "e \<in> set ns" "e \<noteq> hd ns"
    and len: "length pool' = length pool"
    and prv: "\<And>x. x \<in> set ns \<Longrightarrow> prevp (pool' ! x) =
                (if x = hd ns then Some e else if x = e then None
                 else if Some x = succ_in ns e then pred_in ns e else prevp (pool ! x))"
    and nxt: "\<And>x. x \<in> set ns \<Longrightarrow> nextp (pool' ! x) =
                (if x = e then Some (hd ns)
                 else if Some x = pred_in ns e then succ_in ns e else nextp (pool ! x))"
  shows "chain pool' (e # remove1 e ns)"
proof -
  have d: "distinct ns" using ch by (simp add: chain_def)
  have d': "distinct (e # remove1 e ns)" using d by simp
  have set': "set (e # remove1 e ns) = set ns" using e(1) d by auto
  have "x < length pool' \<and> prevp (pool' ! x) = pred_in (e # remove1 e ns) x
          \<and> nextp (pool' ! x) = succ_in (e # remove1 e ns) x" if x: "x \<in> set ns" for x
  proof (intro conjI)
    show "x < length pool'" using chain_mem(1)[OF ch x] len by simp
    have "pred_in ns x = Some e \<longleftrightarrow> Some x = succ_in ns e"
      using succ_pred[OF d, of e x] by auto
    then show "prevp (pool' ! x) = pred_in (e # remove1 e ns) x"
      using prv[OF x] pred_in_front[OF d e x] chain_mem(2)[OF ch x] e(2) by auto
    have "succ_in ns x = Some e \<longleftrightarrow> Some x = pred_in ns e"
      using succ_pred[OF d, of x e] by auto
    then show "nextp (pool' ! x) = succ_in (e # remove1 e ns) x"
      using nxt[OF x] succ_in_front[OF d e x] chain_mem(3)[OF ch x] e(2) by auto
  qed
  then show ?thesis
    unfolding chain_def list_all_iff using d' set' by blast
qed


lemma nth_upd_next [simp]:
  "x < length pool \<Longrightarrow> nextp (pool[i := (pool ! i)\<lparr>nextp := v\<rparr>] ! x) = (if x = i then v else nextp (pool ! x))"
  "x < length pool \<Longrightarrow> prevp (pool[i := (pool ! i)\<lparr>nextp := v\<rparr>] ! x) = prevp (pool ! x)"
  "x < length pool \<Longrightarrow> pageId (pool[i := (pool ! i)\<lparr>nextp := v\<rparr>] ! x) = pageId (pool ! x)"
  "x < length pool \<Longrightarrow> cacheCoord (pool[i := (pool ! i)\<lparr>nextp := v\<rparr>] ! x) = cacheCoord (pool ! x)"
  by (cases "x = i"; simp)+

lemma nth_upd_prev [simp]:
  "x < length pool \<Longrightarrow> prevp (pool[i := (pool ! i)\<lparr>prevp := v\<rparr>] ! x) = (if x = i then v else prevp (pool ! x))"
  "x < length pool \<Longrightarrow> nextp (pool[i := (pool ! i)\<lparr>prevp := v\<rparr>] ! x) = nextp (pool ! x)"
  "x < length pool \<Longrightarrow> pageId (pool[i := (pool ! i)\<lparr>prevp := v\<rparr>] ! x) = pageId (pool ! x)"
  "x < length pool \<Longrightarrow> cacheCoord (pool[i := (pool ! i)\<lparr>prevp := v\<rparr>] ! x) = cacheCoord (pool ! x)"
  by (cases "x = i"; simp)+

section \<open>Reading and writing tree slots\<close>

lemma validPageRequest_validPage:
  "validPageRequest s (pageIdExtractMipLevel pid) (pageIdExtractPageX pid) (pageIdExtractPageY pid)
   \<longleftrightarrow> validPage (cachePageTree s) (pageIdExtractMipLevel pid) (pageIdExtractPageX pid)
         (pageIdExtractPageY pid)"
  using extract_ranges[of pid] by (auto simp: validPageRequest_def validPage_def)

lemma pageIndex_bounds:
  assumes "0 \<le> px" "px < w" "0 \<le> py" "py < h"
  shows "0 \<le> px + py * w" "px + py * w < w * (h::int)"
proof -
  show "0 \<le> px + py * w" using assms by simp
  have "py + 1 \<le> h" using assms by simp
  then have "(py + 1) * w \<le> h * w" using assms by (intro mult_right_mono) auto
  then show "px + py * w < w * h" using assms by (simp add: algebra_simps)
qed

lemma pageIndex_inj:
  assumes "0 \<le> px" "px < w" "0 \<le> px'" "px' < w" "px + py * w = px' + py' * (w::int)"
  shows "px = px' \<and> py = py'"
proof -
  have "(px + py * w) mod w = px" using assms(1,2) by (simp add: mod_pos_pos_trivial)
  moreover have "(px' + py' * w) mod w = px'" using assms(3,4) by (simp add: mod_pos_pos_trivial)
  ultimately have x: "px = px'" using assms(5) by metis
  then have "py * w = py' * w" using assms(5) by simp
  then have "py = py'" using assms by simp
  with x show ?thesis by simp
qed

lemma tree_get_Some:
  assumes "tree_wf t" "validPage t l px py"
  shows "CachePageTree_get t l px py
           = Some (levels t ! nat l ! nat (px + py * getNumPagesX t l))"
proof -
  have "\<not> px + py * getNumPagesX t l < 0"
    "px + py * getNumPagesX t l < getNumPagesX t l * getNumPagesY t l"
    using assms(2) by (auto simp: validPage_def not_less intro!: pageIndex_bounds)
  then show ?thesis
    using assms(2) by (simp add: CachePageTree_get_def validPage_def Let_def)
qed

lemma tree_set_Some:
  assumes "tree_wf t" "validPage t l px py"
  shows "CachePageTree_set t l px py v
           = Some (t\<lparr> levels := (levels t)[nat l :=
                       (levels t ! nat l)[nat (px + py * getNumPagesX t l) := v]] \<rparr>)"
proof -
  have "\<not> px + py * getNumPagesX t l < 0"
    "px + py * getNumPagesX t l < getNumPagesX t l * getNumPagesY t l"
    using assms(2) by (auto simp: validPage_def not_less intro!: pageIndex_bounds)
  then show ?thesis
    using assms(2) by (simp add: CachePageTree_set_def validPage_def Let_def)
qed

lemma tree_set_dims:
  assumes "CachePageTree_set t l px py v = Some t'"
  shows "numLevels t' = numLevels t" "numPagesX t' = numPagesX t" "numPagesY t' = numPagesY t"
    "getNumPagesX t' = getNumPagesX t" "getNumPagesY t' = getNumPagesY t"
    "validPage t' = validPage t"
  using assms
  by (auto simp: CachePageTree_set_def Let_def getNumPagesX_def getNumPagesY_def validPage_def
        fun_eq_iff split: if_splits)

lemma tree_set_wf:
  assumes "tree_wf t" "CachePageTree_set t l px py v = Some t'"
  shows "tree_wf t'"
  using assms
  by (auto simp: CachePageTree_set_def Let_def tree_wf_def list_all_iff nth_list_update
        split: if_splits)

lemma tree_get_set:
  assumes wf: "tree_wf t" and v: "validPage t l px py" 
    and s: "CachePageTree_set t l px py v = Some t'" and v': "validPage t l' px' py'"
  shows "CachePageTree_get t' l' px' py'
           = (if l' = l \<and> px' = px \<and> py' = py then Some v else CachePageTree_get t l' px' py')"
proof -
  have t': "t' = t\<lparr> levels := (levels t)[nat l :=
                       (levels t ! nat l)[nat (px + py * getNumPagesX t l) := v]] \<rparr>"
    using tree_set_Some[OF wf v, of v] s by simp
  have wf': "tree_wf t'" by (rule tree_set_wf[OF wf s])
  have v'': "validPage t' l' px' py'" using v' tree_set_dims(6)[OF s] by simp
  have g': "CachePageTree_get t' l' px' py' = Some (levels t' ! nat l' ! nat (px' + py' * getNumPagesX t l'))"
    using tree_get_Some[OF wf' v''] tree_set_dims(4)[OF s] by simp
  have g: "CachePageTree_get t l' px' py' = Some (levels t ! nat l' ! nat (px' + py' * getNumPagesX t l'))"
    using tree_get_Some[OF wf v'] by simp
  have ll: "nat l < length (levels t)" "nat l' < length (levels t)"
    using wf v v' by (auto simp: tree_wf_def validPage_def)
  have b: "0 \<le> px + py * getNumPagesX t l" "px + py * getNumPagesX t l < getNumPagesX t l * getNumPagesY t l"
    using v by (auto simp: validPage_def intro!: pageIndex_bounds)
  have len: "nat (px + py * getNumPagesX t l) < length (levels t ! nat l)"
    using tree_wf_level(3)[OF wf, of l] v b by (auto simp: validPage_def)
  show ?thesis
  proof (cases "l' = l")
    case False
    then have "nat l' \<noteq> nat l" using v v' by (auto simp: validPage_def)
    then show ?thesis using g g' False by (simp add: t')
  next
    case True
    show ?thesis
    proof (cases "px' = px \<and> py' = py")
      case True
      then show ?thesis using g' \<open>l' = l\<close> ll len by (simp add: t')
    next
      case False
      have "px' + py' * getNumPagesX t l \<noteq> px + py * getNumPagesX t l"
        using pageIndex_inj[of px' "getNumPagesX t l" px py' py] False v v' \<open>l' = l\<close>
        by (auto simp: validPage_def)
      moreover have "0 \<le> px' + py' * getNumPagesX t l"
        using v' \<open>l' = l\<close> by (auto simp: validPage_def)
      ultimately have "nat (px' + py' * getNumPagesX t l) \<noteq> nat (px + py * getNumPagesX t l)"
        using b by auto
      then show ?thesis using g g' \<open>l' = l\<close> False ll by (auto simp add: t')
    qed
  qed
qed

section \<open>Facts about the invariant\<close>

lemma chain_of_set:
  assumes "chain_of s ns"
  shows "set ns = {..<TotalCachePages}"
proof -
  have d: "distinct ns" and l: "length ns = TotalCachePages"
    and lp: "length (cacheEntryPool s) = TotalCachePages"
    using assms by (auto simp: chain_of_def chain_def)
  have sub: "set ns \<subseteq> {..<TotalCachePages}"
    using assms lp by (auto simp: chain_of_def chain_def list_all_iff)
  have "card (set ns) = TotalCachePages" using d l by (simp add: distinct_card)
  then show ?thesis using sub by (intro card_subset_eq) auto
qed

lemma chain_of_ends:
  assumes "chain_of s ns"
  shows "ns \<noteq> []" "hd ns \<in> set ns" "last ns \<in> set ns" "last ns \<noteq> hd ns"
proof -
  have l: "length ns = 256" and d: "distinct ns"
    using assms by (auto simp: chain_of_def chain_def TotalCachePages_eq)
  show ne: "ns \<noteq> []" using l by auto
  show "hd ns \<in> set ns" "last ns \<in> set ns" using ne by auto
  obtain a b cs where "ns = a # b # cs" using l by (cases ns; cases "tl ns") auto
  then show "last ns \<noteq> hd ns" using d by auto
qed

lemma chain_neighbours:
  assumes ch: "chain pool ns" and e: "e \<in> set ns" "e \<noteq> hd ns"
  shows "\<exists>pa. pred_in ns e = Some pa \<and> prevp (pool ! e) = Some pa \<and> pa \<noteq> e
          \<and> pa < length pool \<and> e < length pool \<and> hd ns < length pool
          \<and> nextp (pool ! e) = succ_in ns e
          \<and> (\<forall>nb. succ_in ns e = Some nb \<longrightarrow> nb \<noteq> e \<and> nb \<noteq> hd ns \<and> nb < length pool)"
proof -
  have d: "distinct ns" using ch by (simp add: chain_def)
  have ne: "ns \<noteq> []" using e by auto
  obtain pa where pa: "pred_in ns e = Some pa"
    using pred_in_hd[OF d e(1)] e(2) by (cases "pred_in ns e") auto
  have pam: "pa \<in> set ns" using pred_in_mem[OF pa] by auto
  have hm: "hd ns \<in> set ns" using ne by simp
  have lt: "e < length pool" "pa < length pool" "hd ns < length pool"
    using chain_mem(1)[OF ch] e(1) pam hm by auto
  have pe: "prevp (pool ! e) = Some pa" "nextp (pool ! e) = succ_in ns e"
    using chain_mem(2,3)[OF ch e(1)] pa by auto
  have neq: "pa \<noteq> e"
    using pa succ_pred[OF d, of pa e] succ_in_neq[OF d, of pa] by auto
  have "nb \<noteq> e \<and> nb \<noteq> hd ns \<and> nb < length pool" if nb: "succ_in ns e = Some nb" for nb
  proof -
    have m: "nb \<in> set ns" using succ_in_mem[OF nb] by simp
    show ?thesis
      using succ_in_neq[OF d, of e] nb succ_pred[OF d, of e nb] pred_in_hd[OF d m]
        chain_mem(1)[OF ch m]
      by auto
  qed
  then show ?thesis using pa pe neq lt by blast
qed

lemma validId_validPage:
  "validId s pid \<longleftrightarrow> validPage (cachePageTree s) (pageIdExtractMipLevel pid)
         (pageIdExtractPageX pid) (pageIdExtractPageY pid)"
  by (simp add: validId_def validPageRequest_validPage)

lemma validId_cong:
  assumes "numLevels (cachePageTree s') = numLevels (cachePageTree s)"
    "numPagesX (cachePageTree s') = numPagesX (cachePageTree s)"
    "numPagesY (cachePageTree s') = numPagesY (cachePageTree s)"
  shows "validId s' = validId s"
  using assms
  by (auto simp: validId_def validPageRequest_def getNumPagesX_def getNumPagesY_def fun_eq_iff)

lemma slotOf_Some:
  assumes "tree_wf (cachePageTree s)" "validId s pid"
  shows "\<exists>v. slotOf s pid = Some v"
  using tree_get_Some[OF assms(1)] assms(2) by (simp add: slotOf_def validId_validPage)

lemma tree_ptrs_ok_get:
  assumes wf: "tree_wf t" and ok: "tree_ptrs_ok t" and v: "validPage t l px py"
    and g: "CachePageTree_get t l px py = Some (EntryPtr e)"
  shows "e < TotalCachePages"
proof -
  have ll: "nat l < length (levels t)" using wf v by (auto simp: tree_wf_def validPage_def)
  have b: "0 \<le> px + py * getNumPagesX t l"
    "px + py * getNumPagesX t l < getNumPagesX t l * getNumPagesY t l"
    using v by (auto simp: validPage_def intro!: pageIndex_bounds)
  have len: "nat (px + py * getNumPagesX t l) < length (levels t ! nat l)"
    using tree_wf_level(3)[OF wf, of l] v b by (auto simp: validPage_def)
  have "slot_ok (levels t ! nat l ! nat (px + py * getNumPagesX t l))"
    using ok ll len by (auto simp: tree_ptrs_ok_def list_all_length)
  then show ?thesis using g tree_get_Some[OF wf v] by (simp add: slot_ok_def)
qed

lemma list_all_update:
  assumes "list_all P xs" "P x"
  shows "list_all P (xs[i := x])"
  using assms set_update_subset_insert[of xs i x] by (auto simp: list_all_iff)

lemma tree_ptrs_ok_set:
  assumes ok: "tree_ptrs_ok t" and s: "CachePageTree_set t l px py v = Some t'" and v: "slot_ok v"
  shows "tree_ptrs_ok t'"
proof -
  have "t' = t\<lparr> levels := (levels t)[nat l :=
                       (levels t ! nat l)[nat (px + py * getNumPagesX t l) := v]] \<rparr>"
    using s by (auto simp: CachePageTree_set_def Let_def split: if_splits)
  moreover have "list_all (list_all slot_ok) ((levels t)[nat l :=
                       (levels t ! nat l)[nat (px + py * getNumPagesX t l) := v]])"
  proof (cases "nat l < length (levels t)")
    case True
    then have "list_all slot_ok (levels t ! nat l)"
      using ok by (auto simp: tree_ptrs_ok_def list_all_length)
    then show ?thesis
      using ok v by (intro list_all_update) (auto simp: tree_ptrs_ok_def)
  next
    case False
    then show ?thesis using ok by (simp add: tree_ptrs_ok_def list_update_beyond)
  qed
  ultimately show ?thesis by (simp add: tree_ptrs_ok_def)
qed

section \<open>lookupPage\<close>

lemma chain_of_cong:
  assumes "chain_of s ns" "cacheEntryPool s' = cacheEntryPool s" "mru s' = mru s" "lru s' = lru s"
  shows "chain_of s' ns"
  using assms by (simp add: chain_of_def)

lemma entries_ok_cong:
  assumes "entries_ok s" "validId s' = validId s" "length (cacheEntryPool s') = length (cacheEntryPool s)"
    "\<And>i. i < length (cacheEntryPool s) \<Longrightarrow> pageId (cacheEntryPool s' ! i) = pageId (cacheEntryPool s ! i)"
  shows "entries_ok s'"
  using assms by (auto simp: entries_ok_def list_all_length)

lemma cache_invD:
  assumes "cache_inv s"
  shows "chain_of s (lru_order s)" "tree_wf (cachePageTree s)" "tree_ptrs_ok (cachePageTree s)"
    "entries_ok s" "length (cacheEntryPool s) = TotalCachePages"
  using assms by (auto simp: cache_inv_def lru_chain_ok_def chain_of_def)

lemma cache_invI:
  assumes "chain_of s ns" "tree_wf (cachePageTree s)" "tree_ptrs_ok (cachePageTree s)" "entries_ok s"
  shows "cache_inv s"
  using assms chain_of_order[OF assms(1)] by (simp add: cache_inv_def lru_chain_ok_def)

lemma lookupPage_Null:
  assumes inv: "cache_inv s" and v: "validId s pid" and g: "slotOf s pid = Some NullPtr"
  shows "\<exists>s'. lookupPage pid s = Some (Unavailable, s')
           \<and> slotOf s' pid = Some RequestedPageDummy
           \<and> (\<forall>q. validId s q \<and> \<not> samePage q pid \<longrightarrow> slotOf s' q = slotOf s q)
           \<and> stats s' = (stats s)\<lparr> totalFrameRequests := totalFrameRequests (stats s) + 1,
                                    newFrameRequests := newFrameRequests (stats s) + 1 \<rparr>
           \<and> cacheEntryPool s' = cacheEntryPool s \<and> mru s' = mru s \<and> lru s' = lru s
           \<and> validId s' = validId s \<and> cache_inv s'"
proof -
  let ?t = "cachePageTree s"
  let ?l = "pageIdExtractMipLevel pid" and ?x = "pageIdExtractPageX pid" and ?y = "pageIdExtractPageY pid"
  note I = cache_invD[OF inv]
  have vp: "validPage ?t ?l ?x ?y" using v by (simp add: validId_validPage)
  obtain t' where t': "CachePageTree_set ?t ?l ?x ?y RequestedPageDummy = Some t'"
    using tree_set_Some[OF I(2) vp] by blast
  define s' where "s' = s\<lparr> stats := (stats s)\<lparr> totalFrameRequests := totalFrameRequests (stats s) + 1,
                                    newFrameRequests := newFrameRequests (stats s) + 1 \<rparr>,
                           cachePageTree := t' \<rparr>"
  have lk: "lookupPage pid s = Some (Unavailable, s')"
    using v g t' by (simp add: lookupPage_def validId_def slotOf_def s'_def)
  have dims: "validId s' = validId s"
    using tree_set_dims(1,2,3)[OF t'] by (intro validId_cong) (simp_all add: s'_def)
  have same: "slotOf s' pid = Some RequestedPageDummy"
    using tree_get_set[OF I(2) vp t' vp] by (simp add: slotOf_def s'_def)
  have other: "slotOf s' q = slotOf s q" if "validId s q" "\<not> samePage q pid" for q
    using tree_get_set[OF I(2) vp t', of "pageIdExtractMipLevel q" "pageIdExtractPageX q" "pageIdExtractPageY q"]
      that by (auto simp: slotOf_def s'_def validId_validPage samePage_def)
  have "cache_inv s'"
  proof (rule cache_invI)
    show "chain_of s' (lru_order s)" using I(1) by (rule chain_of_cong) (simp_all add: s'_def)
    show "tree_wf (cachePageTree s')" using tree_set_wf[OF I(2) t'] by (simp add: s'_def)
    show "tree_ptrs_ok (cachePageTree s')"
      using tree_ptrs_ok_set[OF I(3) t'] by (simp add: s'_def slot_ok_def)
    show "entries_ok s'" using I(4) dims by (rule entries_ok_cong) (simp_all add: s'_def)
  qed
  then show ?thesis using lk same other dims by (auto simp: s'_def)
qed

lemma lookupPage_Dummy:
  assumes inv: "cache_inv s" and v: "validId s pid" and g: "slotOf s pid = Some RequestedPageDummy"
  shows "\<exists>s'. lookupPage pid s = Some (InFlight, s')
           \<and> cachePageTree s' = cachePageTree s
           \<and> stats s' = (stats s)\<lparr> totalFrameRequests := totalFrameRequests (stats s) + 1,
                                    reFrameRequests := reFrameRequests (stats s) + 1 \<rparr>
           \<and> cacheEntryPool s' = cacheEntryPool s \<and> mru s' = mru s \<and> lru s' = lru s
           \<and> validId s' = validId s \<and> cache_inv s'"
proof -
  note I = cache_invD[OF inv]
  define s' where "s' = s\<lparr> stats := (stats s)\<lparr> totalFrameRequests := totalFrameRequests (stats s) + 1,
                                    reFrameRequests := reFrameRequests (stats s) + 1 \<rparr> \<rparr>"
  have lk: "lookupPage pid s = Some (InFlight, s')"
    using v g by (simp add: lookupPage_def validId_def slotOf_def s'_def)
  have dims: "validId s' = validId s" by (intro validId_cong) (simp_all add: s'_def)
  have "cache_inv s'"
  proof (rule cache_invI)
    show "chain_of s' (lru_order s)" using I(1) by (rule chain_of_cong) (simp_all add: s'_def)
    show "tree_wf (cachePageTree s')" using I(2) by (simp add: s'_def)
    show "tree_ptrs_ok (cachePageTree s')" using I(3) by (simp add: s'_def)
    show "entries_ok s'" using I(4) dims by (rule entries_ok_cong) (simp_all add: s'_def)
  qed
  then show ?thesis using lk dims by (auto simp: s'_def)
qed

lemma lookupPage_Entry:
  assumes inv: "cache_inv s" and v: "validId s pid" and g: "slotOf s pid = Some (EntryPtr e)"
  shows "\<exists>s'. lookupPage pid s = Some (Cached, s')
           \<and> cachePageTree s' = cachePageTree s
           \<and> stats s' = (stats s)\<lparr> totalFrameRequests := totalFrameRequests (stats s) + 1,
                                    hitFrameRequests := hitFrameRequests (stats s) + 1 \<rparr>
           \<and> lru_order s' = e # remove1 e (lru_order s)
           \<and> map pageId (cacheEntryPool s') = map pageId (cacheEntryPool s)
           \<and> map cacheCoord (cacheEntryPool s') = map cacheCoord (cacheEntryPool s)
           \<and> validId s' = validId s \<and> cache_inv s'"
proof -
  let ?pool = "cacheEntryPool s"
  define ns where "ns = lru_order s"
  note I = cache_invD[OF inv]
  have co: "chain_of s ns" using I(1) by (simp add: ns_def)
  have ch: "chain ?pool ns" and mr: "mru s = Some (hd ns)" and lr: "lru s = Some (last ns)"
    using co by (auto simp: chain_of_def)
  have d: "distinct ns" using ch by (simp add: chain_def)
  have vp: "validPage (cachePageTree s) (pageIdExtractMipLevel pid) (pageIdExtractPageX pid)
              (pageIdExtractPageY pid)"
    using v by (simp add: validId_validPage)
  have e256: "e < TotalCachePages"
    using tree_ptrs_ok_get[OF I(2,3) vp] g by (simp add: slotOf_def)
  have em: "e \<in> set ns" using chain_of_set[OF co] e256 by simp
  have elen: "e < length ?pool" using e256 I(5) by simp
  define st where "st = (stats s)\<lparr> totalFrameRequests := totalFrameRequests (stats s) + 1,
                                    hitFrameRequests := hitFrameRequests (stats s) + 1 \<rparr>"
  have R: "\<exists>s'. lookupPage pid s = Some (Cached, s')
           \<and> cachePageTree s' = cachePageTree s \<and> stats s' = st
           \<and> chain_of s' (e # remove1 e ns)
           \<and> (\<forall>i<length ?pool. pageId (cacheEntryPool s' ! i) = pageId (?pool ! i)
                \<and> cacheCoord (cacheEntryPool s' ! i) = cacheCoord (?pool ! i))"
  proof (cases "e = hd ns")
    case True
    have "e # remove1 e ns = ns" using True chain_of_ends(1)[OF co] by (cases ns) auto
    moreover have "lookupPage pid s = Some (Cached, s\<lparr> stats := st \<rparr>)"
      using v g True mr by (simp add: lookupPage_def validId_def slotOf_def st_def)
    moreover have "chain_of (s\<lparr> stats := st \<rparr>) ns" using co by (rule chain_of_cong) simp_all
    ultimately show ?thesis by simp
  next
    case False
    obtain pa where N: "pred_in ns e = Some pa" "prevp (?pool ! e) = Some pa" "pa \<noteq> e"
      "pa < length ?pool" "hd ns < length ?pool" "nextp (?pool ! e) = succ_in ns e"
      "\<And>nb. succ_in ns e = Some nb \<Longrightarrow> nb \<noteq> e \<and> nb \<noteq> hd ns \<and> nb < length ?pool"
      using chain_neighbours[OF ch em False] by blast
    have len': "length (e # remove1 e ns) = TotalCachePages"
      using co em by (simp add: chain_of_def length_remove1 TotalCachePages_eq)
    show ?thesis
    proof (cases "succ_in ns e")
      case (Some nb)
      note nbf = N(7)[OF Some]
      have "\<exists>s'. lookupPage pid s = Some (Cached, s')
           \<and> cachePageTree s' = cachePageTree s \<and> stats s' = st
           \<and> mru s' = Some e \<and> lru s' = lru s
           \<and> length (cacheEntryPool s') = length ?pool
           \<and> (\<forall>x<length ?pool.
                 prevp (cacheEntryPool s' ! x) = (if x = hd ns then Some e else if x = e then None
                                 else if x = nb then Some pa else prevp (?pool ! x))
               \<and> nextp (cacheEntryPool s' ! x) = (if x = e then Some (hd ns)
                                  else if x = pa then Some nb else nextp (?pool ! x))
               \<and> pageId (cacheEntryPool s' ! x) = pageId (?pool ! x)
               \<and> cacheCoord (cacheEntryPool s' ! x) = cacheCoord (?pool ! x))"
        using v g False mr N(2-6) Some nbf elen
        by (simp add: lookupPage_def validId_def slotOf_def st_def set_next_def set_prev_def deref_def Let_def)
      then obtain s' where s': "lookupPage pid s = Some (Cached, s')"
           "cachePageTree s' = cachePageTree s" "stats s' = st"
           "mru s' = Some e" "lru s' = lru s"
           "length (cacheEntryPool s') = length ?pool"
        and pw: "\<And>x. x < length ?pool \<Longrightarrow>
                 prevp (cacheEntryPool s' ! x) = (if x = hd ns then Some e else if x = e then None
                                 else if x = nb then Some pa else prevp (?pool ! x))
               \<and> nextp (cacheEntryPool s' ! x) = (if x = e then Some (hd ns)
                                  else if x = pa then Some nb else nextp (?pool ! x))
               \<and> pageId (cacheEntryPool s' ! x) = pageId (?pool ! x)
               \<and> cacheCoord (cacheEntryPool s' ! x) = cacheCoord (?pool ! x)"
        by blast
      have "chain (cacheEntryPool s') (e # remove1 e ns)"
      proof (rule move_front_chain[OF ch em False s'(6)])
        fix x assume x: "x \<in> set ns"
        show "prevp (cacheEntryPool s' ! x) = (if x = hd ns then Some e else if x = e then None
                 else if Some x = succ_in ns e then pred_in ns e else prevp (?pool ! x))"
          using pw[OF chain_mem(1)[OF ch x]] Some N(1) by auto
        show "nextp (cacheEntryPool s' ! x) = (if x = e then Some (hd ns)
                 else if Some x = pred_in ns e then succ_in ns e else nextp (?pool ! x))"
          using pw[OF chain_mem(1)[OF ch x]] Some N(1) by auto
      qed
      moreover have "last (e # remove1 e ns) = last ns"
        using last_remove1[OF d em False] succ_in_last[OF d em] Some by simp
      ultimately have "chain_of s' (e # remove1 e ns)"
        using s' len' I(5) lr by (simp add: chain_of_def)
      then show ?thesis using s' pw by blast
    next
      case None
      have el: "e = last ns" using succ_in_last[OF d em] None by simp
      have "\<exists>s'. lookupPage pid s = Some (Cached, s')
           \<and> cachePageTree s' = cachePageTree s \<and> stats s' = st
           \<and> mru s' = Some e \<and> lru s' = Some pa
           \<and> length (cacheEntryPool s') = length ?pool
           \<and> (\<forall>x<length ?pool.
                 prevp (cacheEntryPool s' ! x) = (if x = hd ns then Some e else if x = e then None
                                 else prevp (?pool ! x))
               \<and> nextp (cacheEntryPool s' ! x) = (if x = e then Some (hd ns)
                                  else if x = pa then None else nextp (?pool ! x))
               \<and> pageId (cacheEntryPool s' ! x) = pageId (?pool ! x)
               \<and> cacheCoord (cacheEntryPool s' ! x) = cacheCoord (?pool ! x))"
        using v g False mr lr el N(2-6) None elen
        by (simp add: lookupPage_def validId_def slotOf_def st_def set_next_def set_prev_def deref_def Let_def)
      then obtain s' where s': "lookupPage pid s = Some (Cached, s')"
           "cachePageTree s' = cachePageTree s" "stats s' = st"
           "mru s' = Some e" "lru s' = Some pa"
           "length (cacheEntryPool s') = length ?pool"
        and pw: "\<And>x. x < length ?pool \<Longrightarrow>
                 prevp (cacheEntryPool s' ! x) = (if x = hd ns then Some e else if x = e then None
                                 else prevp (?pool ! x))
               \<and> nextp (cacheEntryPool s' ! x) = (if x = e then Some (hd ns)
                                  else if x = pa then None else nextp (?pool ! x))
               \<and> pageId (cacheEntryPool s' ! x) = pageId (?pool ! x)
               \<and> cacheCoord (cacheEntryPool s' ! x) = cacheCoord (?pool ! x)"
        by blast
      have "chain (cacheEntryPool s') (e # remove1 e ns)"
      proof (rule move_front_chain[OF ch em False s'(6)])
        fix x assume x: "x \<in> set ns"
        show "prevp (cacheEntryPool s' ! x) = (if x = hd ns then Some e else if x = e then None
                 else if Some x = succ_in ns e then pred_in ns e else prevp (?pool ! x))"
          using pw[OF chain_mem(1)[OF ch x]] None N(1) by auto
        show "nextp (cacheEntryPool s' ! x) = (if x = e then Some (hd ns)
                 else if Some x = pred_in ns e then succ_in ns e else nextp (?pool ! x))"
          using pw[OF chain_mem(1)[OF ch x]] None N(1) by auto
      qed
      moreover have "last (e # remove1 e ns) = pa"
        using last_remove1[OF d em False] el N(1) by simp
      ultimately have "chain_of s' (e # remove1 e ns)"
        using s' len' I(5) by (simp add: chain_of_def)
      then show ?thesis using s' pw by blast
    qed
  qed
  then obtain s' where s': "lookupPage pid s = Some (Cached, s')"
      "cachePageTree s' = cachePageTree s" "stats s' = st" "chain_of s' (e # remove1 e ns)"
    and pw: "\<And>i. i < length ?pool \<Longrightarrow> pageId (cacheEntryPool s' ! i) = pageId (?pool ! i)
                \<and> cacheCoord (cacheEntryPool s' ! i) = cacheCoord (?pool ! i)"
    by blast
  have len: "length (cacheEntryPool s') = length ?pool"
    using s'(4) I(5) by (simp add: chain_of_def)
  have dims: "validId s' = validId s" by (intro validId_cong) (simp_all add: s'(2))
  have "cache_inv s'"
  proof (rule cache_invI[OF s'(4)])
    show "tree_wf (cachePageTree s')" using I(2) by (simp add: s'(2))
    show "tree_ptrs_ok (cachePageTree s')" using I(3) by (simp add: s'(2))
    show "entries_ok s'" using I(4) dims len by (rule entries_ok_cong) (simp add: pw)
  qed
  moreover have "map pageId (cacheEntryPool s') = map pageId ?pool"
    "map cacheCoord (cacheEntryPool s') = map cacheCoord ?pool"
    using len pw by (auto intro!: nth_equalityI)
  ultimately show ?thesis
    using s' dims chain_of_order[OF s'(4)] by (auto simp: st_def ns_def)
qed

section \<open>allocPageEntry and accommodatePage\<close>

lemma allocPageEntry_spec:
  assumes inv: "cache_inv s"
  defines "ns \<equiv> lru_order s"
  defines "e \<equiv> last (lru_order s)"
  defines "old \<equiv> pageId (cacheEntryPool s ! last (lru_order s))"
  shows "\<exists>s1. allocPageEntry s = Some (e, s1)
           \<and> chain_of s1 (e # remove1 e ns)
           \<and> stats s1 = stats s
           \<and> (\<forall>i<TotalCachePages. pageId (cacheEntryPool s1 ! i) = pageId (cacheEntryPool s ! i)
                \<and> cacheCoord (cacheEntryPool s1 ! i) = cacheCoord (cacheEntryPool s ! i))
           \<and> (if old \<noteq> InvalidPageId
               then CachePageTree_set_id (cachePageTree s) old NullPtr = Some (cachePageTree s1)
               else cachePageTree s1 = cachePageTree s)"
proof -
  let ?pool = "cacheEntryPool s"
  note I = cache_invD[OF inv]
  have co: "chain_of s ns" using I(1) by (simp add: ns_def)
  have ch: "chain ?pool ns" and mr: "mru s = Some (hd ns)" and lr: "lru s = Some e"
    using co by (auto simp: chain_of_def e_def ns_def)
  have d: "distinct ns" using ch by (simp add: chain_def)
  have em: "e \<in> set ns" and nh: "e \<noteq> hd ns"
    using chain_of_ends[OF co] by (auto simp: e_def ns_def)
  have elen: "e < length ?pool" using chain_mem(1)[OF ch em] .
  obtain pa where N: "pred_in ns e = Some pa" "prevp (?pool ! e) = Some pa" "pa \<noteq> e"
      "pa < length ?pool" "hd ns < length ?pool" "nextp (?pool ! e) = succ_in ns e"
    using chain_neighbours[OF ch em nh] by blast
  have sn: "succ_in ns e = None" using succ_in_last[OF d em] by (simp add: e_def ns_def)
  have oldv: "old \<noteq> InvalidPageId \<Longrightarrow> validId s old"
    using I(4) elen by (auto simp: entries_ok_def list_all_length old_def e_def)
  obtain t1 where t1: "(if old \<noteq> InvalidPageId
              then CachePageTree_set_id (cachePageTree s) old NullPtr
              else Some (cachePageTree s)) = Some t1"
  proof (cases "old \<noteq> InvalidPageId")
    case True
    then have "validPage (cachePageTree s) (pageIdExtractMipLevel old) (pageIdExtractPageX old)
        (pageIdExtractPageY old)" using oldv by (simp add: validId_validPage)
    from tree_set_Some[OF I(2) this, of NullPtr] True that show ?thesis
      by (simp add: CachePageTree_set_id_def)
  next
    case False
    then show ?thesis using that by simp
  qed
  have "\<exists>s1. allocPageEntry s = Some (e, s1)
           \<and> cachePageTree s1 = t1 \<and> stats s1 = stats s
           \<and> mru s1 = Some e \<and> lru s1 = Some pa
           \<and> length (cacheEntryPool s1) = length ?pool
           \<and> (\<forall>x<length ?pool.
                 prevp (cacheEntryPool s1 ! x) = (if x = hd ns then Some e else if x = e then None
                                 else prevp (?pool ! x))
               \<and> nextp (cacheEntryPool s1 ! x) = (if x = e then Some (hd ns)
                                  else if x = pa then None else nextp (?pool ! x))
               \<and> pageId (cacheEntryPool s1 ! x) = pageId (?pool ! x)
               \<and> cacheCoord (cacheEntryPool s1 ! x) = cacheCoord (?pool ! x))"
    using t1[unfolded old_def] nh[unfolded e_def] mr lr[unfolded e_def] N(2-6)[unfolded e_def]
      sn[unfolded e_def] elen[unfolded e_def]
    unfolding e_def
    by (simp add: allocPageEntry_def set_next_def set_prev_def deref_def Let_def)
  then obtain s1 where s1: "allocPageEntry s = Some (e, s1)"
           "cachePageTree s1 = t1" "stats s1 = stats s"
           "mru s1 = Some e" "lru s1 = Some pa"
           "length (cacheEntryPool s1) = length ?pool"
        and pw: "\<And>x. x < length ?pool \<Longrightarrow>
                 prevp (cacheEntryPool s1 ! x) = (if x = hd ns then Some e else if x = e then None
                                 else prevp (?pool ! x))
               \<and> nextp (cacheEntryPool s1 ! x) = (if x = e then Some (hd ns)
                                  else if x = pa then None else nextp (?pool ! x))
               \<and> pageId (cacheEntryPool s1 ! x) = pageId (?pool ! x)
               \<and> cacheCoord (cacheEntryPool s1 ! x) = cacheCoord (?pool ! x)"
    by blast
  have "chain (cacheEntryPool s1) (e # remove1 e ns)"
  proof (rule move_front_chain[OF ch em nh s1(6)])
    fix x assume x: "x \<in> set ns"
    show "prevp (cacheEntryPool s1 ! x) = (if x = hd ns then Some e else if x = e then None
                 else if Some x = succ_in ns e then pred_in ns e else prevp (?pool ! x))"
      using pw[OF chain_mem(1)[OF ch x]] sn N(1) by auto
    show "nextp (cacheEntryPool s1 ! x) = (if x = e then Some (hd ns)
                 else if Some x = pred_in ns e then succ_in ns e else nextp (?pool ! x))"
      using pw[OF chain_mem(1)[OF ch x]] sn N(1) by auto
  qed
  moreover have "last (e # remove1 e ns) = pa"
    using last_remove1[OF d em nh] N(1) by (simp add: e_def ns_def)
  moreover have "length (e # remove1 e ns) = TotalCachePages"
    using co em by (simp add: chain_of_def length_remove1 TotalCachePages_eq)
  ultimately have "chain_of s1 (e # remove1 e ns)"
    using s1 I(5) by (simp add: chain_of_def)
  then show ?thesis using s1 pw t1 I(5) by (auto split: if_splits)
qed

lemma nth_upd_pageId [simp]:
  "x < length pool \<Longrightarrow> prevp (pool[i := (pool ! i)\<lparr>pageId := v\<rparr>] ! x) = prevp (pool ! x)"
  "x < length pool \<Longrightarrow> nextp (pool[i := (pool ! i)\<lparr>pageId := v\<rparr>] ! x) = nextp (pool ! x)"
  "x < length pool \<Longrightarrow> pageId (pool[i := (pool ! i)\<lparr>pageId := v\<rparr>] ! x) = (if x = i then v else pageId (pool ! x))"
  "x < length pool \<Longrightarrow> cacheCoord (pool[i := (pool ! i)\<lparr>pageId := v\<rparr>] ! x) = cacheCoord (pool ! x)"
  by (cases "x = i"; simp)+

lemma chain_pageId_update:
  assumes "chain pool ns"
  shows "chain (pool[i := (pool ! i)\<lparr>pageId := v\<rparr>]) ns"
  using assms by (auto simp: chain_def list_all_iff)

lemma remove1_last: "distinct ns \<Longrightarrow> ns \<noteq> [] \<Longrightarrow> remove1 (last ns) ns = butlast ns"
  by (induction ns) (auto simp: remove1_idem)

lemma accommodatePage_spec:
  assumes inv: "cache_inv s" and v: "validId s pid"
  defines "ns \<equiv> lru_order s"
  defines "e \<equiv> last (lru_order s)"
  defines "old \<equiv> pageId (cacheEntryPool s ! last (lru_order s))"
  shows "\<exists>s'. accommodatePage pid s = Some (cacheCoord (cacheEntryPool s ! e), s')
     \<and> lru_order s' = e # butlast ns
     \<and> pageId (cacheEntryPool s' ! e) = pid
     \<and> (\<forall>i<TotalCachePages. i \<noteq> e \<longrightarrow> pageId (cacheEntryPool s' ! i) = pageId (cacheEntryPool s ! i))
     \<and> map cacheCoord (cacheEntryPool s') = map cacheCoord (cacheEntryPool s)
     \<and> slotOf s' pid = Some (EntryPtr e)
     \<and> (\<forall>q. validId s q \<and> \<not> samePage q pid \<longrightarrow>
            slotOf s' q = (if old \<noteq> InvalidPageId \<and> samePage q old then Some NullPtr else slotOf s q))
     \<and> stats s' = (stats s)\<lparr> servicedRequests := servicedRequests (stats s) + 1 \<rparr>
     \<and> validId s' = validId s \<and> cache_inv s'"
proof -
  let ?pool = "cacheEntryPool s"
  let ?t = "cachePageTree s"
  let ?l = "pageIdExtractMipLevel pid" and ?x = "pageIdExtractPageX pid" and ?y = "pageIdExtractPageY pid"
  note I = cache_invD[OF inv]
  have co: "chain_of s ns" using I(1) by (simp add: ns_def)
  have d: "distinct ns" using co by (simp add: chain_of_def chain_def)
  have em: "e \<in> set ns" using chain_of_ends[OF co] by (auto simp: e_def ns_def)
  have e256: "e < TotalCachePages" using chain_of_set[OF co] em by simp
  have rm: "remove1 e ns = butlast ns"
    using remove1_last[OF d chain_of_ends(1)[OF co]] by (simp add: e_def ns_def)
  have oldv: "old \<noteq> InvalidPageId \<Longrightarrow> validId s old"
    using I(4,5) e256 by (auto simp: entries_ok_def list_all_length old_def e_def)
  obtain s1 where s1: "allocPageEntry s = Some (e, s1)" "chain_of s1 (e # remove1 e ns)"
      "stats s1 = stats s"
    and pw: "\<And>i. i < TotalCachePages \<Longrightarrow> pageId (cacheEntryPool s1 ! i) = pageId (?pool ! i)
                \<and> cacheCoord (cacheEntryPool s1 ! i) = cacheCoord (?pool ! i)"
    and tr: "if old \<noteq> InvalidPageId
               then CachePageTree_set_id ?t old NullPtr = Some (cachePageTree s1)
               else cachePageTree s1 = ?t"
    using allocPageEntry_spec[OF inv] unfolding ns_def e_def old_def by blast
  let ?t1 = "cachePageTree s1"
  have l1: "length (cacheEntryPool s1) = TotalCachePages" using s1(2) by (simp add: chain_of_def)
  have vp: "validPage ?t ?l ?x ?y" using v by (simp add: validId_validPage)
  have t1: "tree_wf ?t1" "tree_ptrs_ok ?t1" "validPage ?t1 = validPage ?t"
    "numLevels ?t1 = numLevels ?t" "numPagesX ?t1 = numPagesX ?t" "numPagesY ?t1 = numPagesY ?t"
  proof -
    show "tree_wf ?t1" using tr I(2) tree_set_wf[OF I(2)]
      by (auto simp: CachePageTree_set_id_def split: if_splits)
    show "tree_ptrs_ok ?t1" using tr I(3) tree_ptrs_ok_set[OF I(3)]
      by (auto simp: CachePageTree_set_id_def slot_ok_def split: if_splits)
    show "validPage ?t1 = validPage ?t" "numLevels ?t1 = numLevels ?t"
      "numPagesX ?t1 = numPagesX ?t" "numPagesY ?t1 = numPagesY ?t"
      using tr tree_set_dims
      by (auto simp: CachePageTree_set_id_def split: if_splits)
  qed
  have vp1: "validPage ?t1 ?l ?x ?y" using vp t1(3) by simp
  obtain t2 where t2: "CachePageTree_set ?t1 ?l ?x ?y (EntryPtr e) = Some t2"
    using tree_set_Some[OF t1(1) vp1] by blast
  define s' where "s' = s1\<lparr> cachePageTree := t2,
      cacheEntryPool := (cacheEntryPool s1)[e := (cacheEntryPool s1 ! e)\<lparr> pageId := pid \<rparr>],
      stats := (stats s1)\<lparr> servicedRequests := servicedRequests (stats s1) + 1 \<rparr> \<rparr>"
  have v1: "validPageRequest s ?l ?x ?y" using v by (simp add: validId_def)
  have acc: "accommodatePage pid s = Some (cacheCoord (?pool ! e), s')"
    using v1 s1(1) t2 pw[OF e256] e256 l1
    by (simp add: accommodatePage_def s'_def Let_def)
  have dims: "validId s' = validId s"
    using tree_set_dims(1,2,3)[OF t2] t1(4,5,6) by (intro validId_cong) (simp_all add: s'_def)
  have co': "chain_of s' (e # remove1 e ns)"
    using s1(2) chain_pageId_update by (simp add: chain_of_def s'_def)
  have pid': "pageId (cacheEntryPool s' ! e) = pid" using e256 l1 by (simp add: s'_def)
  have others: "pageId (cacheEntryPool s' ! i) = pageId (?pool ! i)" if "i < TotalCachePages" "i \<noteq> e" for i
    using that pw[OF that(1)] l1 by (simp add: s'_def)
  have coords: "map cacheCoord (cacheEntryPool s') = map cacheCoord ?pool"
    using l1 I(5) pw by (auto intro!: nth_equalityI simp: s'_def)
  have same: "slotOf s' pid = Some (EntryPtr e)"
    using tree_get_set[OF t1(1) vp1 t2 vp1] by (simp add: slotOf_def s'_def)
  have other: "slotOf s' q = (if old \<noteq> InvalidPageId \<and> samePage q old then Some NullPtr else slotOf s q)"
    if q: "validId s q" "\<not> samePage q pid" for q
  proof -
    let ?ql = "pageIdExtractMipLevel q" and ?qx = "pageIdExtractPageX q" and ?qy = "pageIdExtractPageY q"
    have vq: "validPage ?t ?ql ?qx ?qy" using q(1) by (simp add: validId_validPage)
    have vq1: "validPage ?t1 ?ql ?qx ?qy" using vq t1(3) by simp
    have a: "slotOf s' q = CachePageTree_get ?t1 ?ql ?qx ?qy"
      using tree_get_set[OF t1(1) vp1 t2 vq1] q(2) by (auto simp: slotOf_def s'_def samePage_def)
    show ?thesis
    proof (cases "old \<noteq> InvalidPageId")
      case True
      have vo: "validPage ?t (pageIdExtractMipLevel old) (pageIdExtractPageX old) (pageIdExtractPageY old)"
        using oldv[OF True] by (simp add: validId_validPage)
      have "CachePageTree_set ?t (pageIdExtractMipLevel old) (pageIdExtractPageX old)
              (pageIdExtractPageY old) NullPtr = Some ?t1"
        using tr True by (simp add: CachePageTree_set_id_def)
      from tree_get_set[OF I(2) vo this vq] show ?thesis
        using a True by (auto simp: slotOf_def samePage_def)
    next
      case False
      then show ?thesis using a tr by (simp add: slotOf_def)
    qed
  qed
  have "cache_inv s'"
  proof (rule cache_invI[OF co'])
    show "tree_wf (cachePageTree s')" using tree_set_wf[OF t1(1) t2] by (simp add: s'_def)
    show "tree_ptrs_ok (cachePageTree s')"
      using tree_ptrs_ok_set[OF t1(2) t2] e256 by (simp add: s'_def slot_ok_def)
    have "pageId (cacheEntryPool s' ! i) = InvalidPageId \<or> validId s (pageId (cacheEntryPool s' ! i))"
      if "i < TotalCachePages" for i
    proof (cases "i = e")
      case True
      then show ?thesis using pid' v by simp
    next
      case False
      then show ?thesis using others[OF that False] I(4,5) that
        by (auto simp: entries_ok_def list_all_length)
    qed
    then show "entries_ok s'"
      using dims l1 by (auto simp: entries_ok_def list_all_length s'_def)
  qed
  then show ?thesis
    using acc chain_of_order[OF co'] pid' others coords same other dims rm s1(3)
    by (auto simp: s'_def)
qed

section \<open>purgeCache and the constructor\<close>

lemma purgeEntries_length [simp]: "length (purgeEntries n es) = length es"
  by (induction n) (auto simp: Let_def)

lemma purgeEntries_nth:
  assumes "j < length es"
  shows "purgeEntries n es ! j =
           (if j < n then (es ! j)\<lparr> prevp := (if j > 0 then Some (j - 1) else None),
                                    nextp := (if j < TotalCachePages - 1 then Some (j + 1) else None),
                                    pageId := InvalidPageId \<rparr>
            else es ! j)"
  using assms
proof (induction n)
  case 0
  then show ?case by simp
next
  case (Suc n)
  then show ?case by (auto simp: Let_def nth_list_update less_Suc_eq)
qed

lemma purgeCache_chain_of:
  assumes "length (cacheEntryPool s) = TotalCachePages"
  shows "chain_of (purgeCache s) [0..<TotalCachePages]"
proof -
  have "chain (purgeEntries TotalCachePages (cacheEntryPool s)) [0..<TotalCachePages]"
    using assms
    by (auto simp: chain_def list_all_iff purgeEntries_nth pred_in_upt succ_in_upt TotalCachePages_eq)
  then show ?thesis
    using assms
    by (simp add: chain_of_def purgeCache_def TotalCachePages_eq hd_upt last_upt)
qed

lemma tree_ptrs_ok_clear: "tree_ptrs_ok (CachePageTree_clear t)"
  by (auto simp: tree_ptrs_ok_def CachePageTree_clear_def list_all_iff slot_ok_def)

lemma purgeCache_inv:
  assumes "length (cacheEntryPool s) = TotalCachePages" "tree_wf (cachePageTree s)"
  shows "cache_inv (purgeCache s)"
proof (rule cache_invI[OF purgeCache_chain_of[OF assms(1)]])
  show "tree_wf (cachePageTree (purgeCache s))"
    using assms(2) by (simp add: purgeCache_def tree_wf_clear)
  show "tree_ptrs_ok (cachePageTree (purgeCache s))"
    by (simp add: purgeCache_def tree_ptrs_ok_clear)
  show "entries_ok (purgeCache s)"
    using assms(1)
    by (auto simp: entries_ok_def list_all_length purgeCache_def purgeEntries_nth)
qed

lemma purgeCache_order:
  assumes "length (cacheEntryPool s) = TotalCachePages"
  shows "lru_order (purgeCache s) = [0..<TotalCachePages]"
  by (rule chain_of_order[OF purgeCache_chain_of[OF assms]])

lemma purgeCache_validId: "validId (purgeCache s) = validId s"
  by (intro validId_cong) (simp_all add: purgeCache_def CachePageTree_clear_def)

lemma fold_length_inv:
  assumes "\<And>x ys. length (f x ys) = length ys"
  shows "length (fold f xs es) = length es"
  using assms by (induction xs arbitrary: es) auto

lemma initEntries_length [simp]: "length (initEntries es) = length es"
  unfolding initEntries_def
  by (intro fold_length_inv) simp

lemma PageCacheMgr_new_inv:
  assumes "PageCacheMgr_new vtPagesX vtPagesY n = Some s"
  shows "cache_inv s"
proof -
  obtain t where t: "CachePageTree_new vtPagesX vtPagesY n = Some t"
    and s: "s = purgeCache \<lparr> stats = clearedStats, mru = None, lru = None, cachePageTree = t,
                          cacheEntryPool = initEntries (replicate TotalCachePages clearedEntry) \<rparr>"
    using assms by (auto simp: PageCacheMgr_new_def split: bind_splits)
  show ?thesis
    unfolding s by (rule purgeCache_inv) (simp_all add: tree_wf_new[OF t])
qed

lemma cache_inv_purge:
  assumes "cache_inv s"
  shows "cache_inv (purgeCache s)"
  using cache_invD(2,5)[OF assms] by (intro purgeCache_inv)

section \<open>The LRU chain under any sequence of calls\<close>

lemma cacheStep_inv:
  assumes "cache_inv s" "opValid s c"
  shows "\<exists>s'. cacheStep c s = Some s' \<and> cache_inv s' \<and> validId s' = validId s"
proof (cases c)
  case (LookupPage pid)
  then have v: "validId s pid" using assms(2) by simp
  obtain sl where sl: "slotOf s pid = Some sl"
    using slotOf_Some[OF cache_invD(2)[OF assms(1)] v] by blast
  show ?thesis
  proof (cases sl)
    case NullPtr
    then show ?thesis using lookupPage_Null[OF assms(1) v] sl LookupPage by auto
  next
    case RequestedPageDummy
    then show ?thesis using lookupPage_Dummy[OF assms(1) v] sl LookupPage by auto
  next
    case (EntryPtr e)
    then show ?thesis using lookupPage_Entry[OF assms(1) v, of e] sl LookupPage by auto
  qed
next
  case (AccommodatePage pid)
  then have v: "validId s pid" using assms(2) by simp
  show ?thesis using accommodatePage_spec[OF assms(1) v] AccommodatePage by auto
next
  case PurgeCache
  then show ?thesis using cache_inv_purge[OF assms(1)] purgeCache_validId by auto
qed

lemma opValid_cong: "validId s' = validId s \<Longrightarrow> opValid s' c = opValid s c"
  by (cases c) auto

lemma cacheRun_inv:
  assumes "cache_inv s" "list_all (opValid s) cs"
  shows "\<exists>s'. cacheRun cs s = Some s' \<and> cache_inv s' \<and> validId s' = validId s"
  using assms
proof (induction cs arbitrary: s)
  case Nil
  then show ?case by simp
next
  case (Cons c cs)
  obtain s1 where s1: "cacheStep c s = Some s1" "cache_inv s1" "validId s1 = validId s"
    using cacheStep_inv[OF Cons.prems(1), of c] Cons.prems(2) by auto
  have "list_all (opValid s1) cs"
    using Cons.prems(2) opValid_cong[OF s1(3)] by (auto simp: list_all_iff)
  from Cons.IH[OF s1(2) this] show ?case using s1 by auto
qed

lemma chain_ends_null:
  assumes "chain_of s ns"
  shows "map_option prevp (deref (cacheEntryPool s) (mru s)) = Some None"
    "map_option nextp (deref (cacheEntryPool s) (lru s)) = Some None"
proof -
  have ch: "chain (cacheEntryPool s) ns" and d: "distinct ns"
    using assms by (auto simp: chain_of_def chain_def)
  note E = chain_of_ends[OF assms]
  show "map_option prevp (deref (cacheEntryPool s) (mru s)) = Some None"
    using chain_mem(1,2)[OF ch E(2)] pred_in_hd[OF d E(2)] assms
    by (simp add: deref_def chain_of_def)
  show "map_option nextp (deref (cacheEntryPool s) (lru s)) = Some None"
    using chain_mem(1,3)[OF ch E(3)] succ_in_last[OF d E(3)] assms
    by (simp add: deref_def chain_of_def)
qed

text \<open>Claim C3. After the PageCacheMgr constructor, and after any sequence of
  \<open>lookupPage\<close>, \<open>accommodatePage\<close> (on page ids in range) and \<open>purgeCache\<close> calls that
  follows it, every call returns, and the LRU chain is a valid doubly-linked list: the
  walk along \<open>next\<close> from \<open>mru\<close> meets each of the 256 pool entries once and ends at
  \<open>lru\<close>, every \<open>prev\<close> is the predecessor on that walk, \<open>mru->prev\<close> is null and
  \<open>lru->next\<close> is null.\<close>

theorem lru_chain_valid_after_any_calls:
  assumes "PageCacheMgr_new vtPagesX vtPagesY vtNumLevels = Some s0"
    and "list_all (opValid s0) calls"
  shows "\<exists>s. cacheRun calls s0 = Some s
           \<and> lru_chain_ok s
           \<and> length (lru_order s) = 256
           \<and> distinct (lru_order s)
           \<and> set (lru_order s) = {..<256}
           \<and> map_option prevp (deref (cacheEntryPool s) (mru s)) = Some None
           \<and> map_option nextp (deref (cacheEntryPool s) (lru s)) = Some None"
proof -
  obtain s where s: "cacheRun calls s0 = Some s" "cache_inv s"
    using cacheRun_inv[OF PageCacheMgr_new_inv[OF assms(1)] assms(2)] by blast
  have co: "chain_of s (lru_order s)" by (rule cache_invD(1)[OF s(2)])
  show ?thesis
    using s co chain_of_set[OF co] chain_ends_null[OF co]
    by (auto simp: cache_inv_def chain_of_def chain_def TotalCachePages_eq)
qed

lemma validId_new:
  assumes "PageCacheMgr_new vtPagesX vtPagesY n = Some s"
    "pageIdExtractMipLevel pid < n"
    "pageIdExtractPageX pid < vtPagesX ! nat (pageIdExtractMipLevel pid)"
    "pageIdExtractPageY pid < vtPagesY ! nat (pageIdExtractMipLevel pid)"
  shows "validId s pid"
  using assms PageCacheMgr_new_tree(1)[OF assms(1)]
    PageCacheMgr_new_pages[OF assms(1), of "pageIdExtractMipLevel pid"] extract_ranges(5)[of pid]
  by (simp add: validId_def validPageRequest_def)

lemma exampleCache_validId:
  assumes "uint a \<le> 255" "uint b \<le> 255" "uint c \<le> 255" "uint d \<le> 255"
   "uint c < 5" "uint a < [16, 8, 4, 2, 1] ! nat (uint c)" "uint b < [16, 8, 4, 2, 1] ! nat (uint c)"
  shows "validId exampleCache (makePageId a b c d)"
  using assms by (intro validId_new[OF exampleCache_new]) (simp_all add: extract_make_num)

lemma w1: "validId exampleCache (makePageId 3 5 0 0)"
  by (rule exampleCache_validId) simp_all

theorem lru_chain_valid_after_any_calls_witness:
  "\<exists>s. cacheRun [LookupPage (makePageId 3 5 0 0), AccommodatePage (makePageId 3 5 0 0),
                   LookupPage (makePageId 3 5 0 0), PurgeCache, AccommodatePage (makePageId 0 0 4 0)]
          exampleCache = Some s \<and> lru_chain_ok s"
proof -
  have "list_all (opValid exampleCache)
          [LookupPage (makePageId 3 5 0 0), AccommodatePage (makePageId 3 5 0 0),
           LookupPage (makePageId 3 5 0 0), PurgeCache, AccommodatePage (makePageId 0 0 4 0)]"
    by (simp add: exampleCache_validId)
  from lru_chain_valid_after_any_calls[OF exampleCache_new this] show ?thesis by blast
qed

section \<open>lookupPage: the three cases\<close>

lemma slotOf_purge:
  assumes "tree_wf (cachePageTree s)" "validId s pid"
  shows "slotOf (purgeCache s) pid = Some NullPtr"
proof -
  let ?t = "cachePageTree s"
  let ?l = "pageIdExtractMipLevel pid" and ?x = "pageIdExtractPageX pid" and ?y = "pageIdExtractPageY pid"
  have vp: "validPage ?t ?l ?x ?y" using assms(2) by (simp add: validId_validPage)
  have vp': "validPage (CachePageTree_clear ?t) ?l ?x ?y"
    using vp by (simp add: validPage_def CachePageTree_clear_def getNumPagesX_def getNumPagesY_def)
  have ll: "nat ?l < length (levels ?t)" using assms(1) vp by (auto simp: tree_wf_def validPage_def)
  have b: "0 \<le> ?x + ?y * getNumPagesX ?t ?l"
    "?x + ?y * getNumPagesX ?t ?l < getNumPagesX ?t ?l * getNumPagesY ?t ?l"
    using vp by (auto simp: validPage_def intro!: pageIndex_bounds)
  have len: "nat (?x + ?y * getNumPagesX ?t ?l) < length (levels ?t ! nat ?l)"
    using tree_wf_level(3)[OF assms(1), of ?l] vp b by (auto simp: validPage_def)
  show ?thesis
    using tree_get_Some[OF tree_wf_clear[OF assms(1)] vp'] ll len
    by (simp add: slotOf_def purgeCache_def CachePageTree_clear_def getNumPagesX_def)
qed

lemma slotOf_new:
  assumes "PageCacheMgr_new vtPagesX vtPagesY n = Some s" "validId s pid"
  shows "slotOf s pid = Some NullPtr"
proof -
  obtain t where t: "CachePageTree_new vtPagesX vtPagesY n = Some t"
    and s: "s = purgeCache \<lparr> stats = clearedStats, mru = None, lru = None, cachePageTree = t,
                          cacheEntryPool = initEntries (replicate TotalCachePages clearedEntry) \<rparr>"
    using assms by (auto simp: PageCacheMgr_new_def split: bind_splits)
  have "validId \<lparr> stats = clearedStats, mru = None, lru = None, cachePageTree = t,
                          cacheEntryPool = initEntries (replicate TotalCachePages clearedEntry) \<rparr> pid"
    using assms(2) purgeCache_validId unfolding s by simp
  then show ?thesis unfolding s by (intro slotOf_purge) (simp_all add: tree_wf_new[OF t])
qed

text \<open>Claim C1. In every state that satisfies the invariant of the cache manager (every
  state reachable from the constructor does), for every PageId in range,
  \<open>lookupPage\<close> returns, increments \<open>totalFrameRequests\<close>, leaves the LRU chain valid,
  and: on a null slot stores the InFlight sentinel, increments \<open>newFrameRequests\<close> and
  returns Unavailable; on the sentinel increments \<open>reFrameRequests\<close> and returns
  InFlight; on a real entry \<open>e\<close> increments \<open>hitFrameRequests\<close>, returns Cached and
  moves \<open>e\<close> to the head of the chain, the other entries keeping their order (wherever
  \<open>e\<close> stood, the LRU tail included, whose predecessor then becomes \<open>lru\<close>).\<close>

theorem lookupPage_behaviour:
  assumes "cache_inv s" and "validId s pid"
  shows "\<exists>status s'. lookupPage pid s = Some (status, s')
      \<and> totalFrameRequests (stats s') = totalFrameRequests (stats s) + 1
      \<and> lru_chain_ok s'
      \<and> (case slotOf s pid of
            None \<Rightarrow> False
          | Some NullPtr \<Rightarrow>
              status = Unavailable \<and> slotOf s' pid = Some RequestedPageDummy
              \<and> newFrameRequests (stats s') = newFrameRequests (stats s) + 1
              \<and> lru_order s' = lru_order s
          | Some RequestedPageDummy \<Rightarrow>
              status = InFlight \<and> slotOf s' pid = Some RequestedPageDummy
              \<and> reFrameRequests (stats s') = reFrameRequests (stats s) + 1
              \<and> lru_order s' = lru_order s
          | Some (EntryPtr e) \<Rightarrow>
              status = Cached \<and> slotOf s' pid = Some (EntryPtr e)
              \<and> hitFrameRequests (stats s') = hitFrameRequests (stats s) + 1
              \<and> lru_order s' = e # remove1 e (lru_order s)
              \<and> mru s' = Some e
              \<and> (lru s = Some e \<and> mru s \<noteq> Some e
                    \<longrightarrow> lru s' = Some (last (butlast (lru_order s)))))"
proof -
  obtain sl where sl: "slotOf s pid = Some sl"
    using slotOf_Some[OF cache_invD(2)[OF assms(1)] assms(2)] by blast
  show ?thesis
  proof (cases sl)
    case NullPtr
    obtain s' where s': "lookupPage pid s = Some (Unavailable, s')"
      "slotOf s' pid = Some RequestedPageDummy"
      "stats s' = (stats s)\<lparr> totalFrameRequests := totalFrameRequests (stats s) + 1,
                                    newFrameRequests := newFrameRequests (stats s) + 1 \<rparr>"
      "cacheEntryPool s' = cacheEntryPool s" "mru s' = mru s" "cache_inv s'"
      using lookupPage_Null[OF assms] sl NullPtr by auto
    have "lru_order s' = lru_order s" using s'(4,5) by (simp add: lru_order_def)
    moreover have "lru_chain_ok s'" using s'(6) by (simp add: cache_inv_def)
    ultimately show ?thesis using s'(1,2,3) sl NullPtr by simp
  next
    case RequestedPageDummy
    obtain s' where s': "lookupPage pid s = Some (InFlight, s')"
      "cachePageTree s' = cachePageTree s"
      "stats s' = (stats s)\<lparr> totalFrameRequests := totalFrameRequests (stats s) + 1,
                                    reFrameRequests := reFrameRequests (stats s) + 1 \<rparr>"
      "cacheEntryPool s' = cacheEntryPool s" "mru s' = mru s" "cache_inv s'"
      using lookupPage_Dummy[OF assms] sl RequestedPageDummy by auto
    have "lru_order s' = lru_order s" using s'(4,5) by (simp add: lru_order_def)
    moreover have "lru_chain_ok s'" using s'(6) by (simp add: cache_inv_def)
    moreover have "slotOf s' pid = slotOf s pid" using s'(2) by (simp add: slotOf_def)
    ultimately show ?thesis using s'(1,3) sl RequestedPageDummy by simp
  next
    case (EntryPtr e)
    obtain s' where s': "lookupPage pid s = Some (Cached, s')"
      "cachePageTree s' = cachePageTree s"
      "stats s' = (stats s)\<lparr> totalFrameRequests := totalFrameRequests (stats s) + 1,
                                    hitFrameRequests := hitFrameRequests (stats s) + 1 \<rparr>"
      "lru_order s' = e # remove1 e (lru_order s)" "cache_inv s'"
      using lookupPage_Entry[OF assms, of e] sl EntryPtr by auto
    have co: "chain_of s (lru_order s)" and co': "chain_of s' (lru_order s')"
      using cache_invD(1)[OF assms(1)] cache_invD(1)[OF s'(5)] by auto
    have d: "distinct (lru_order s)" using co by (simp add: chain_of_def chain_def)
    have m: "mru s' = Some e" using co' s'(4) by (simp add: chain_of_def)
    have "lru s' = Some (last (butlast (lru_order s)))" if "lru s = Some e" "mru s \<noteq> Some e"
    proof -
      have el: "e = last (lru_order s)" using co that by (simp add: chain_of_def)
      have "remove1 e (lru_order s) = butlast (lru_order s)"
        using remove1_last[OF d chain_of_ends(1)[OF co]] el by simp
      moreover have "butlast (lru_order s) \<noteq> []"
        using co by (auto simp: chain_of_def TotalCachePages_eq simp flip: length_greater_0_conv)
      ultimately show ?thesis using co' s'(4) by (simp add: chain_of_def)
    qed
    moreover have "lru_chain_ok s'" using s'(5) by (simp add: cache_inv_def)
    moreover have "slotOf s' pid = slotOf s pid" using s'(2) by (simp add: slotOf_def)
    ultimately show ?thesis
      using s'(1,3,4) sl EntryPtr m by simp
  qed
qed

theorem lookupPage_behaviour_witness:
  "cache_inv exampleCache \<and> validId exampleCache (makePageId 3 5 0 0)
   \<and> slotOf exampleCache (makePageId 3 5 0 0) = Some NullPtr
   \<and> (\<exists>s'. lookupPage (makePageId 3 5 0 0) exampleCache = Some (Unavailable, s')
            \<and> slotOf s' (makePageId 3 5 0 0) = Some RequestedPageDummy)"
proof -
  have v: "validId exampleCache (makePageId 3 5 0 0)"
    by (rule exampleCache_validId) simp_all
  have i: "cache_inv exampleCache" by (rule PageCacheMgr_new_inv[OF exampleCache_new])
  have n: "slotOf exampleCache (makePageId 3 5 0 0) = Some NullPtr"
    by (rule slotOf_new[OF exampleCache_new v])
  have "\<exists>s'. lookupPage (makePageId 3 5 0 0) exampleCache = Some (Unavailable, s')
            \<and> slotOf s' (makePageId 3 5 0 0) = Some RequestedPageDummy"
    using lookupPage_behaviour[OF i v] n by simp blast
  then show ?thesis using v i n by simp
qed

section \<open>frameUpdate and duplicate completions\<close>

lemma slotOf_samePage: "samePage p q \<Longrightarrow> slotOf s p = slotOf s q"
  by (simp add: slotOf_def samePage_def)

lemma validId_samePage: "samePage p q \<Longrightarrow> validId s p = validId s q"
  by (simp add: validId_def samePage_def)

lemma stillWantPage_slot:
  assumes "validId s pid"
  shows "stillWantPage pid s = map_option (\<lambda>v. v = RequestedPageDummy) (slotOf s pid)"
  using assms
  by (cases "slotOf s pid") (auto simp: stillWantPage_def validId_def slotOf_def Let_def)

lemma accommodatePage_not_in_flight:
  assumes inv: "cache_inv s" and v: "validId s pid"
  shows "\<exists>c s'. accommodatePage pid s = Some (c, s') \<and> cache_inv s' \<and> validId s' = validId s
          \<and> servicedRequests (stats s') = servicedRequests (stats s) + 1
          \<and> slotOf s' pid = Some (EntryPtr (last (lru_order s)))
          \<and> stillWantPage pid s' = Some False
          \<and> (\<forall>q. validId s q \<and> slotOf s q \<noteq> Some RequestedPageDummy
                 \<longrightarrow> slotOf s' q \<noteq> Some RequestedPageDummy)"
proof -
  obtain s' where s': "accommodatePage pid s
        = Some (cacheCoord (cacheEntryPool s ! last (lru_order s)), s')"
      "slotOf s' pid = Some (EntryPtr (last (lru_order s)))"
      "stats s' = (stats s)\<lparr> servicedRequests := servicedRequests (stats s) + 1 \<rparr>"
      "validId s' = validId s" "cache_inv s'"
    and other: "\<And>q. validId s q \<Longrightarrow> \<not> samePage q pid \<Longrightarrow>
            slotOf s' q = (if pageId (cacheEntryPool s ! last (lru_order s)) \<noteq> InvalidPageId
                              \<and> samePage q (pageId (cacheEntryPool s ! last (lru_order s)))
                           then Some NullPtr else slotOf s q)"
    using accommodatePage_spec[OF inv v] by blast
  have "slotOf s' q \<noteq> Some RequestedPageDummy"
    if q: "validId s q" "slotOf s q \<noteq> Some RequestedPageDummy" for q
  proof (cases "samePage q pid")
    case True
    then show ?thesis using slotOf_samePage[OF True, of s'] s'(2) by simp
  next
    case False
    then show ?thesis using other[OF q(1) False] q(2) by auto
  qed
  moreover have "stillWantPage pid s' = Some False"
    using stillWantPage_slot[of s' pid] v s'(2,4) by simp
  ultimately show ?thesis using s' by auto
qed

section \<open>accommodatePage: eviction of the least recently used entry\<close>

lemma samePage_pageKey: "samePage p q \<longleftrightarrow> pageKey p = pageKey q"
  by (auto simp: samePage_def pageKey_def)

lemma validId_not_Invalid:
  assumes "tree_wf (cachePageTree s)" "validId s pid"
  shows "pid \<noteq> InvalidPageId"
proof
  assume "pid = InvalidPageId"
  then have "pageIdExtractMipLevel pid = 255"
    by (simp add: InvalidPageId_def pageIdExtractMipLevel_def)
  then show False
    using assms by (simp add: validId_def validPageRequest_def tree_wf_def MaxVTMipLevels_def)
qed

lemma accommodateAll_snoc:
  "accommodateAll (ps @ [p]) s =
     (case accommodateAll ps s of None \<Rightarrow> None
      | Some s1 \<Rightarrow> map_option snd (accommodatePage p s1))"
  by (induction ps arbitrary: s) (auto split: option.splits)

lemma purgeCache_pageIds:
  assumes "length (cacheEntryPool s) = TotalCachePages" "i < TotalCachePages"
  shows "pageId (cacheEntryPool (purgeCache s) ! i) = InvalidPageId"
  using assms by (simp add: purgeCache_def purgeEntries_nth)

lemma last_rot: "j < 256 \<Longrightarrow> last ([256 - j..<256] @ [0..<256 - j]) = 255 - (j::nat)"
  by (simp add: last_upt)

lemma butlast_rot:
  assumes "j < (256::nat)"
  shows "(255 - j) # butlast ([256 - j..<256] @ [0..<256 - j])
           = [256 - Suc j..<256] @ [0..<256 - Suc j]"
proof -
  have a: "[0..<256 - j] = [0..<255 - j] @ [255 - j]"
    using assms upt_Suc_append[of 0 "255 - j"] by (simp add: Suc_diff_Suc flip: Suc_diff_le)
  have "butlast ([256 - j..<256] @ [0..<256 - j]) = [256 - j..<256] @ [0..<255 - j]"
    unfolding a by (simp add: butlast_append)
  moreover have "[255 - j..<256] = (255 - j) # [256 - j..<256]"
  proof -
    have "Suc (255 - j) = 256 - j" "255 - j < 256" using assms by arith+
    then show ?thesis by (subst upt_rec) simp
  qed
  moreover have "256 - Suc j = 255 - j" by simp
  ultimately show ?thesis by simp
qed

lemma accommodate_prefix:
  assumes inv0: "cache_inv s0" and ord0: "lru_order s0 = [0..<256]"
    and free0: "\<forall>i<256. pageId (cacheEntryPool s0 ! i) = InvalidPageId"
    and valid: "list_all (validId s0) ps" and dist: "distinct (map pageKey ps)"
    and j: "j \<le> length ps" "j \<le> 256"
  shows "\<exists>s. accommodateAll (take j ps) s0 = Some s \<and> cache_inv s \<and> validId s = validId s0
       \<and> lru_order s = [256 - j..<256] @ [0..<256 - j]
       \<and> (\<forall>i<256. pageId (cacheEntryPool s ! i)
                      = (if 256 - j \<le> i then ps ! (255 - i) else InvalidPageId))
       \<and> (\<forall>m<j. slotOf s (ps ! m) = Some (EntryPtr (255 - m)))"
  using j
proof (induction j)
  case 0
  then show ?case using inv0 ord0 free0 by simp
next
  case (Suc j)
  then have jl: "j < length ps" "j < 256" by simp_all
  obtain s where s: "accommodateAll (take j ps) s0 = Some s" "cache_inv s" "validId s = validId s0"
      "lru_order s = [256 - j..<256] @ [0..<256 - j]"
    and ids: "\<And>i. i < 256 \<Longrightarrow> pageId (cacheEntryPool s ! i)
                      = (if 256 - j \<le> i then ps ! (255 - i) else InvalidPageId)"
    and slots: "\<And>m. m < j \<Longrightarrow> slotOf s (ps ! m) = Some (EntryPtr (255 - m))"
    using Suc.IH jl by auto
  let ?p = "ps ! j"
  have vp: "validId s ?p" using valid jl(1) s(3) by (simp add: list_all_length)
  have e: "last (lru_order s) = 255 - j" using s(4) last_rot[OF jl(2)] by simp
  have nle: "\<not> 256 - j \<le> 255 - j" "255 - j < 256" using jl(2) by arith+
  have old: "pageId (cacheEntryPool s ! last (lru_order s)) = InvalidPageId"
    using ids[OF nle(2)] nle(1) e by simp
  obtain s' where s': "accommodatePage ?p s
        = Some (cacheCoord (cacheEntryPool s ! last (lru_order s)), s')"
      "lru_order s' = last (lru_order s) # butlast (lru_order s)"
      "pageId (cacheEntryPool s' ! last (lru_order s)) = ?p"
      "slotOf s' ?p = Some (EntryPtr (last (lru_order s)))"
      "validId s' = validId s" "cache_inv s'"
    and oth: "\<And>i. i < TotalCachePages \<Longrightarrow> i \<noteq> last (lru_order s) \<Longrightarrow>
                pageId (cacheEntryPool s' ! i) = pageId (cacheEntryPool s ! i)"
    and sl: "\<And>q. validId s q \<Longrightarrow> \<not> samePage q ?p \<Longrightarrow>
            slotOf s' q = (if pageId (cacheEntryPool s ! last (lru_order s)) \<noteq> InvalidPageId
                              \<and> samePage q (pageId (cacheEntryPool s ! last (lru_order s)))
                           then Some NullPtr else slotOf s q)"
    using accommodatePage_spec[OF s(2) vp] by blast
  have run: "accommodateAll (take (Suc j) ps) s0 = Some s'"
    using s(1) s'(1) jl(1) by (simp add: take_Suc_conv_app_nth accommodateAll_snoc)
  have ord: "lru_order s' = [256 - Suc j..<256] @ [0..<256 - Suc j]"
    using s'(2) e s(4) butlast_rot[OF jl(2)] by simp
  have ids': "pageId (cacheEntryPool s' ! i)
                = (if 256 - Suc j \<le> i then ps ! (255 - i) else InvalidPageId)" if "i < 256" for i
  proof (cases "i = 255 - j")
    case True
    then show ?thesis using s'(3) e jl(2) by simp
  next
    case False
    then show ?thesis using oth[of i] ids[OF that] that e by (auto simp: TotalCachePages_eq)
  qed
  have slots': "slotOf s' (ps ! m) = Some (EntryPtr (255 - m))" if "m < Suc j" for m
  proof (cases "m = j")
    case True
    then show ?thesis using s'(4) e by simp
  next
    case False
    then have mj: "m < j" using that by simp
    have "pageKey (ps ! m) \<noteq> pageKey (ps ! j)"
      using dist mj jl(1) by (auto simp: distinct_conv_nth)
    then have ns: "\<not> samePage (ps ! m) ?p" by (simp add: samePage_pageKey)
    have vm: "validId s (ps ! m)" using valid mj jl(1) s(3) by (simp add: list_all_length)
    show ?thesis using sl[OF vm ns] old slots[OF mj] by simp
  qed
  show ?case using run s'(5,6) s(3) ord ids' slots' by auto
qed


lemma isCached_intro:
  assumes "slotOf s p = Some (EntryPtr e)" "pageId (cacheEntryPool s ! e) = p"
  shows "isCached s p"
  using assms by (simp add: isCached_def)

lemma accommodate_257:
  assumes inv0: "cache_inv s0" and ord0: "lru_order s0 = [0..<256]"
    and free0: "\<forall>i<256. pageId (cacheEntryPool s0 ! i) = InvalidPageId"
    and valid: "list_all (validId s0) ps" and dist: "distinct (map pageKey ps)"
    and len: "length ps = 257"
  shows "\<exists>s256 s257. accommodateAll (take 256 ps) s0 = Some s256
           \<and> (\<forall>j<256. isCached s256 (ps ! j))
           \<and> accommodateAll ps s0 = Some s257
           \<and> slotOf s257 (ps ! 0) = Some NullPtr
           \<and> \<not> isCached s257 (ps ! 0)
           \<and> (\<forall>j. 1 \<le> j \<and> j < 257 \<longrightarrow> isCached s257 (ps ! j))"
proof -
  obtain s where s: "accommodateAll (take 256 ps) s0 = Some s" "cache_inv s" "validId s = validId s0"
      "lru_order s = [0..<256]"
    and ids: "\<And>i. i < 256 \<Longrightarrow> pageId (cacheEntryPool s ! i) = ps ! (255 - i)"
    and slots: "\<And>m. m < 256 \<Longrightarrow> slotOf s (ps ! m) = Some (EntryPtr (255 - m))"
    using accommodate_prefix[OF inv0 ord0 free0 valid dist, of 256] len by auto
  have c256: "isCached s (ps ! j)" if "j < 256" for j
  proof -
    have ar: "255 - j < 256" "255 - (255 - j) = j" using that by arith+
    show ?thesis using slots[OF that] ids[OF ar(1)] ar(2) by (intro isCached_intro[of _ _ "255 - j"]) simp_all
  qed
  let ?p = "ps ! 256"
  have vp: "validId s ?p" using valid len s(3) by (simp add: list_all_length)
  have v0: "validId s (ps ! 0)" using valid len s(3) by (simp add: list_all_length)
  have e: "last (lru_order s) = 255" using s(4) by (simp add: last_upt)
  have old: "pageId (cacheEntryPool s ! last (lru_order s)) = ps ! 0"
    using ids[of 255] e by simp
  have oldv: "ps ! 0 \<noteq> InvalidPageId"
    by (rule validId_not_Invalid[OF cache_invD(2)[OF s(2)] v0])
  obtain s' where s': "accommodatePage ?p s
        = Some (cacheCoord (cacheEntryPool s ! last (lru_order s)), s')"
      "pageId (cacheEntryPool s' ! last (lru_order s)) = ?p"
      "slotOf s' ?p = Some (EntryPtr (last (lru_order s)))"
    and oth: "\<And>i. i < TotalCachePages \<Longrightarrow> i \<noteq> last (lru_order s) \<Longrightarrow>
                pageId (cacheEntryPool s' ! i) = pageId (cacheEntryPool s ! i)"
    and sl: "\<And>q. validId s q \<Longrightarrow> \<not> samePage q ?p \<Longrightarrow>
            slotOf s' q = (if pageId (cacheEntryPool s ! last (lru_order s)) \<noteq> InvalidPageId
                              \<and> samePage q (pageId (cacheEntryPool s ! last (lru_order s)))
                           then Some NullPtr else slotOf s q)"
    using accommodatePage_spec[OF s(2) vp] by blast
  have "ps = take 256 ps @ [ps ! 256]"
    using len take_Suc_conv_app_nth[of 256 ps] by simp
  then have run: "accommodateAll ps s0 = Some s'"
    using s(1) s'(1) accommodateAll_snoc[of "take 256 ps" "ps ! 256" s0] by simp
  have neq: "\<not> samePage (ps ! m) (ps ! n)" if "m < 257" "n < 257" "m \<noteq> n" for m n
    using dist that len by (auto simp: distinct_conv_nth samePage_pageKey)
  have z: "slotOf s' (ps ! 0) = Some NullPtr"
    using sl[OF v0 neq[of 0 256]] old oldv by (simp add: samePage_def)
  have cached: "isCached s' (ps ! m)" if m: "1 \<le> m" "m < 257" for m
  proof (cases "m = 256")
    case True
    then show ?thesis using s'(2,3) e by (intro isCached_intro[of _ _ 255]) simp_all
  next
    case False
    then have m256: "m < 256" using m by simp
    have vm: "validId s (ps ! m)" using valid len m s(3) by (simp add: list_all_length)
    have "slotOf s' (ps ! m) = Some (EntryPtr (255 - m))"
      using sl[OF vm neq[of m 256]] neq[of m 0] m old slots[OF m256] False by simp
    moreover have "pageId (cacheEntryPool s' ! (255 - m)) = ps ! m"
    proof -
      have ar: "255 - m < 256" "255 - m \<noteq> 255" "255 - (255 - m) = m" using m m256 by arith+
      show ?thesis using oth[of "255 - m"] ids[OF ar(1)] ar e by (simp add: TotalCachePages_eq)
    qed
    ultimately show ?thesis by (rule isCached_intro)
  qed
  show ?thesis using s(1) c256 run z cached by (auto simp: isCached_def)
qed

lemma purged_free:
  assumes "cache_inv s"
  shows "cache_inv (purgeCache s)" "lru_order (purgeCache s) = [0..<256]"
    "\<forall>i<256. pageId (cacheEntryPool (purgeCache s) ! i) = InvalidPageId"
    "validId (purgeCache s) = validId s"
  using cache_inv_purge[OF assms] purgeCache_order[OF cache_invD(5)[OF assms]]
    purgeCache_pageIds[OF cache_invD(5)[OF assms]] purgeCache_validId[of s]
  by (simp_all add: TotalCachePages_eq)

text \<open>Claim C2. In every state that satisfies the invariant, for every PageId in range,
  \<open>accommodatePage\<close> returns the fixed \<open>cacheCoord\<close> of the entry \<open>e\<close> that was the
  LRU tail at call time; afterwards: the tree slot of the page that \<open>e\<close> held, if it
  held one (and it is not the page being accommodated), is null; no other slot but this
  one and the slot of the new page has changed; \<open>e\<close> is the MRU head, the other entries
  keeping their order; \<open>e\<close> holds the new page id and keeps its \<open>cacheCoord\<close>; the slot
  of the new page points to \<open>e\<close>; \<open>servicedRequests\<close> is one higher. Consequently,
  starting from a purged cache, accommodating 257 pages that are in range and pairwise
  distinct (as pages of the texture: level, x, y) succeeds; after the first 256 all of
  them are cached, and after the 257th exactly the first one is not: its slot is null,
  and each of the other 256 is cached.\<close>

theorem accommodatePage_evicts_lru:
  assumes "cache_inv s" and "validId s pid"
  shows "(\<exists>e s'. lru s = Some e \<and> e = last (lru_order s)
            \<and> accommodatePage pid s = Some (cacheCoord (cacheEntryPool s ! e), s')
            \<and> (pageId (cacheEntryPool s ! e) \<noteq> InvalidPageId
                  \<and> \<not> samePage (pageId (cacheEntryPool s ! e)) pid
                \<longrightarrow> slotOf s' (pageId (cacheEntryPool s ! e)) = Some NullPtr)
            \<and> (\<forall>q. validId s q \<and> \<not> samePage q pid
                     \<and> \<not> (pageId (cacheEntryPool s ! e) \<noteq> InvalidPageId
                           \<and> samePage q (pageId (cacheEntryPool s ! e)))
                   \<longrightarrow> slotOf s' q = slotOf s q)
            \<and> lru_order s' = e # butlast (lru_order s) \<and> mru s' = Some e \<and> lru_chain_ok s'
            \<and> pageId (cacheEntryPool s' ! e) = pid
            \<and> cacheCoord (cacheEntryPool s' ! e) = cacheCoord (cacheEntryPool s ! e)
            \<and> slotOf s' pid = Some (EntryPtr e)
            \<and> servicedRequests (stats s') = servicedRequests (stats s) + 1)
       \<and> (\<forall>ps. length ps = 257 \<and> distinct (map pageKey ps) \<and> list_all (validId s) ps \<longrightarrow>
            (\<exists>s256 s257. accommodateAll (take 256 ps) (purgeCache s) = Some s256
               \<and> (\<forall>j<256. isCached s256 (ps ! j))
               \<and> accommodateAll ps (purgeCache s) = Some s257
               \<and> slotOf s257 (ps ! 0) = Some NullPtr
               \<and> \<not> isCached s257 (ps ! 0)
               \<and> (\<forall>j. 1 \<le> j \<and> j < 257 \<longrightarrow> isCached s257 (ps ! j))))"
proof (intro conjI allI impI)
  let ?e = "last (lru_order s)"
  note I = cache_invD[OF assms(1)]
  obtain s' where s': "accommodatePage pid s = Some (cacheCoord (cacheEntryPool s ! ?e), s')"
      "lru_order s' = ?e # butlast (lru_order s)"
      "pageId (cacheEntryPool s' ! ?e) = pid"
      "map cacheCoord (cacheEntryPool s') = map cacheCoord (cacheEntryPool s)"
      "slotOf s' pid = Some (EntryPtr ?e)"
      "stats s' = (stats s)\<lparr> servicedRequests := servicedRequests (stats s) + 1 \<rparr>"
      "cache_inv s'"
    and sl: "\<And>q. validId s q \<Longrightarrow> \<not> samePage q pid \<Longrightarrow>
            slotOf s' q = (if pageId (cacheEntryPool s ! ?e) \<noteq> InvalidPageId
                              \<and> samePage q (pageId (cacheEntryPool s ! ?e))
                           then Some NullPtr else slotOf s q)"
    using accommodatePage_spec[OF assms] by blast
  have co: "chain_of s (lru_order s)" by (rule I(1))
  have co': "chain_of s' (lru_order s')" by (rule cache_invD(1)[OF s'(7)])
  have e256: "?e < TotalCachePages" using chain_of_set[OF co] chain_of_ends(3)[OF co] by auto
  have lr: "lru s = Some ?e" using co by (simp add: chain_of_def)
  have mr: "mru s' = Some ?e" using co' s'(2) by (simp add: chain_of_def)
  have ok: "lru_chain_ok s'" using s'(7) by (simp add: cache_inv_def)
  have cc: "cacheCoord (cacheEntryPool s' ! ?e) = cacheCoord (cacheEntryPool s ! ?e)"
  proof -
    have "map cacheCoord (cacheEntryPool s') ! ?e = map cacheCoord (cacheEntryPool s) ! ?e"
      using s'(4) by simp
    then show ?thesis using e256 I(5) cache_invD(5)[OF s'(7)] by simp
  qed
  have ev: "slotOf s' (pageId (cacheEntryPool s ! ?e)) = Some NullPtr"
    if "pageId (cacheEntryPool s ! ?e) \<noteq> InvalidPageId"
       "\<not> samePage (pageId (cacheEntryPool s ! ?e)) pid"
  proof -
    have "validId s (pageId (cacheEntryPool s ! ?e))"
      using I(4,5) e256 that(1) by (auto simp: entries_ok_def list_all_length)
    from sl[OF this that(2)] that(1) show ?thesis by (simp add: samePage_def)
  qed
  have keep: "slotOf s' q = slotOf s q"
    if "validId s q \<and> \<not> samePage q pid
          \<and> \<not> (pageId (cacheEntryPool s ! ?e) \<noteq> InvalidPageId
                \<and> samePage q (pageId (cacheEntryPool s ! ?e)))" for q
    using sl[of q] that by auto
  show "\<exists>e s'. lru s = Some e \<and> e = last (lru_order s)
            \<and> accommodatePage pid s = Some (cacheCoord (cacheEntryPool s ! e), s')
            \<and> (pageId (cacheEntryPool s ! e) \<noteq> InvalidPageId
                  \<and> \<not> samePage (pageId (cacheEntryPool s ! e)) pid
                \<longrightarrow> slotOf s' (pageId (cacheEntryPool s ! e)) = Some NullPtr)
            \<and> (\<forall>q. validId s q \<and> \<not> samePage q pid
                     \<and> \<not> (pageId (cacheEntryPool s ! e) \<noteq> InvalidPageId
                           \<and> samePage q (pageId (cacheEntryPool s ! e)))
                   \<longrightarrow> slotOf s' q = slotOf s q)
            \<and> lru_order s' = e # butlast (lru_order s) \<and> mru s' = Some e \<and> lru_chain_ok s'
            \<and> pageId (cacheEntryPool s' ! e) = pid
            \<and> cacheCoord (cacheEntryPool s' ! e) = cacheCoord (cacheEntryPool s ! e)
            \<and> slotOf s' pid = Some (EntryPtr e)
            \<and> servicedRequests (stats s') = servicedRequests (stats s) + 1"
    using lr s'(1,2,3,5,6) mr ok cc ev keep
    by (intro exI[of _ ?e] exI[of _ s']) simp
next
  fix ps
  assume a: "length ps = 257 \<and> distinct (map pageKey ps) \<and> list_all (validId s) ps"
  note P = purged_free[OF assms(1)]
  have v: "list_all (validId (purgeCache s)) ps" using a P(4) by simp
  show "\<exists>s256 s257. accommodateAll (take 256 ps) (purgeCache s) = Some s256
               \<and> (\<forall>j<256. isCached s256 (ps ! j))
               \<and> accommodateAll ps (purgeCache s) = Some s257
               \<and> slotOf s257 (ps ! 0) = Some NullPtr
               \<and> \<not> isCached s257 (ps ! 0)
               \<and> (\<forall>j. 1 \<le> j \<and> j < 257 \<longrightarrow> isCached s257 (ps ! j))"
    using accommodate_257[OF P(1,2,3) v] a by blast
qed

lemma pageKey_level0:
  assumes "i < 256"
  shows "pageKey (makePageId (of_nat (i mod 16)) (of_nat (i div 16)) 0 0) = (0, int (i mod 16), int (i div 16))"
proof -
  have a: "uint (of_nat (i mod 16) :: 32 word) = int (i mod 16)"
    "uint (of_nat (i div 16) :: 32 word) = int (i div 16)"
    using assms by (simp_all add: uint_nat unat_of_nat take_bit_nat_eq_self)
  have "int (i mod 16) \<le> 255" "int (i div 16) \<le> 255" using assms by simp_all
  then show ?thesis
    using extract_make_num[of "of_nat (i mod 16)" "of_nat (i div 16)" 0 0] a
    by (simp add: pageKey_def)
qed

lemma examplePages_length: "length examplePages = 257"
  by (simp add: examplePages_def)

lemma examplePages_distinct: "distinct (map pageKey examplePages)"
proof -
  have inj: "inj_on (\<lambda>i. pageKey (makePageId (of_nat (i mod 16)) (of_nat (i div 16)) 0 0)) {0..<256}"
  proof (rule inj_onI)
    fix i j :: nat assume ij: "i \<in> {0..<256}" "j \<in> {0..<256}"
      and eq: "pageKey (makePageId (of_nat (i mod 16)) (of_nat (i div 16)) 0 0)
             = pageKey (makePageId (of_nat (j mod 16)) (of_nat (j div 16)) 0 0)"
    then have "i mod 16 = j mod 16" "i div 16 = j div 16"
      using pageKey_level0[of i] pageKey_level0[of j] by simp_all
    then show "i = j" by (metis div_mult_mod_eq)
  qed
  have l1: "pageKey (makePageId 0 0 1 0) = (1, 0, 0)"
    using extract_make_num[of 0 0 1 0] by (simp add: pageKey_def)
  have "pageKey (makePageId 0 0 1 0)
          \<notin> (\<lambda>i. pageKey (makePageId (of_nat (i mod 16)) (of_nat (i div 16)) 0 0)) ` {0..<256}"
    using pageKey_level0 l1 by auto
  then show ?thesis
    using inj by (simp add: examplePages_def distinct_map comp_def)
qed

lemma examplePages_valid: "list_all (validId exampleCache) examplePages"
proof -
  have "validId exampleCache (makePageId (of_nat (i mod 16)) (of_nat (i div 16)) 0 0)" if "i < 256" for i
  proof -
    have k: "pageKey (makePageId (of_nat (i mod 16)) (of_nat (i div 16)) 0 0)
               = (0, int (i mod 16), int (i div 16))"
      by (rule pageKey_level0[OF that])
    show ?thesis
      using k that
      by (intro validId_new[OF exampleCache_new]) (simp_all add: pageKey_def)
  qed
  moreover have "validId exampleCache (makePageId 0 0 1 0)"
    by (rule exampleCache_validId) simp_all
  ultimately show ?thesis by (auto simp: examplePages_def list_all_iff)
qed

theorem accommodatePage_evicts_lru_witness:
  "cache_inv exampleCache \<and> validId exampleCache (makePageId 3 5 0 0)
   \<and> length examplePages = 257 \<and> distinct (map pageKey examplePages)
   \<and> list_all (validId exampleCache) examplePages
   \<and> (\<exists>s'. accommodatePage (makePageId 3 5 0 0) exampleCache
               = Some (cacheCoord (cacheEntryPool exampleCache ! last (lru_order exampleCache)), s')
          \<and> slotOf s' (makePageId 3 5 0 0) = Some (EntryPtr (last (lru_order exampleCache))))
   \<and> (\<exists>s257. accommodateAll examplePages (purgeCache exampleCache) = Some s257
          \<and> slotOf s257 (examplePages ! 0) = Some NullPtr
          \<and> isCached s257 (examplePages ! 1) \<and> isCached s257 (examplePages ! 256))"
proof -
  have v: "validId exampleCache (makePageId 3 5 0 0)"
    by (rule exampleCache_validId) simp_all
  have i: "cache_inv exampleCache" by (rule PageCacheMgr_new_inv[OF exampleCache_new])
  note T = accommodatePage_evicts_lru[OF i v]
  have one: "\<exists>s'. accommodatePage (makePageId 3 5 0 0) exampleCache
               = Some (cacheCoord (cacheEntryPool exampleCache ! last (lru_order exampleCache)), s')
          \<and> slotOf s' (makePageId 3 5 0 0) = Some (EntryPtr (last (lru_order exampleCache)))"
    using T by blast
  have "\<exists>s256 s257. accommodateAll (take 256 examplePages) (purgeCache exampleCache) = Some s256
               \<and> (\<forall>j<256. isCached s256 (examplePages ! j))
               \<and> accommodateAll examplePages (purgeCache exampleCache) = Some s257
               \<and> slotOf s257 (examplePages ! 0) = Some NullPtr
               \<and> \<not> isCached s257 (examplePages ! 0)
               \<and> (\<forall>j. 1 \<le> j \<and> j < 257 \<longrightarrow> isCached s257 (examplePages ! j))"
    using T examplePages_length examplePages_distinct examplePages_valid by blast
  then obtain s257 where r: "accommodateAll examplePages (purgeCache exampleCache) = Some s257"
      "slotOf s257 (examplePages ! 0) = Some NullPtr"
    and c: "\<And>j. 1 \<le> j \<and> j < 257 \<Longrightarrow> isCached s257 (examplePages ! j)"
    by blast
  have "isCached s257 (examplePages ! 1)" "isCached s257 (examplePages ! 256)"
    using c[of 1] c[of 256] by simp_all
  with r have many: "\<exists>s257. accommodateAll examplePages (purgeCache exampleCache) = Some s257
          \<and> slotOf s257 (examplePages ! 0) = Some NullPtr
          \<and> isCached s257 (examplePages ! 1) \<and> isCached s257 (examplePages ! 256)"
    by blast
  show ?thesis
    using v i examplePages_length examplePages_distinct examplePages_valid one many by blast
qed

section \<open>The frequency map and the sort of feedbackBufferAnalysis\<close>

lemma pageMap_increment_keys:
  "map fst (pageMap_increment k m) = (if k \<in> fst ` set m then map fst m else map fst m @ [k])"
  by (induction m) (auto split: if_splits)

lemma pageMap_increment_lookup:
  "distinct (map fst m) \<Longrightarrow>
   pageMap_lookup (pageMap_increment k m) q = (if q = k then pageMap_lookup m k + 1 else pageMap_lookup m q)"
proof (induction m)
  case Nil
  then show ?case by (simp add: pageMap_lookup_def)
next
  case (Cons a m)
  obtain k' c where a: "a = (k', c)" by (cases a)
  show ?case using Cons by (auto simp: a pageMap_lookup_def)
qed

lemma countPages_props:
  assumes "distinct (map fst m)"
  shows "distinct (map fst (countPages fs m))
       \<and> set (map fst (countPages fs m)) = fst ` set m \<union> (set fs - {InvalidPageId})
       \<and> (\<forall>q. pageMap_lookup (countPages fs m) q
                = pageMap_lookup m q + (if q = InvalidPageId then 0 else count_list fs q))"
  using assms
proof (induction fs arbitrary: m)
  case Nil
  then show ?case by simp
next
  case (Cons f fs)
  show ?case
  proof (cases "f = InvalidPageId")
    case True
    then show ?thesis using Cons.IH[OF Cons.prems] by auto
  next
    case False
    have d: "distinct (map fst (pageMap_increment f m))"
      using Cons.prems by (simp add: pageMap_increment_keys)
    have s: "fst ` set (pageMap_increment f m) = insert f (fst ` set m)"
      using pageMap_increment_keys[of f m] 
      by (metis (no_types, lifting) Un_insert_right append_Nil2 insert_absorb list.set_map list.simps(15) set_append)
    show ?thesis
      using Cons.IH[OF d] False pageMap_increment_lookup[OF Cons.prems, of f] s
      by auto
  qed
qed

lemma set_sortInsert [simp]: "set (sortInsert before v ys) = insert v (set ys)"
  by (induction ys) auto

lemma length_sortInsert [simp]: "length (sortInsert before v ys) = Suc (length ys)"
  by (induction ys) auto

lemma distinct_sortInsert: "distinct (sortInsert before v ys) \<longleftrightarrow> v \<notin> set ys \<and> distinct ys"
  by (induction ys) auto

lemma set_stdSort [simp]: "set (stdSort before vs) = set vs"
  by (induction vs) auto

lemma length_stdSort [simp]: "length (stdSort before vs) = length vs"
  by (induction vs) auto

lemma distinct_stdSort [simp]: "distinct (stdSort before vs) = distinct vs"
  by (induction vs) (auto simp: distinct_sortInsert)

lemma pageBefore_rank:
  "pageBefore m a b \<longleftrightarrow>
     (fst (pageRank m a) > fst (pageRank m b)
      \<or> (fst (pageRank m a) = fst (pageRank m b) \<and> snd (pageRank m a) > snd (pageRank m b)))"
  by (auto simp: pageBefore_def pageRank_def Let_def)

lemma pageBefore_asym: "pageBefore m a b \<Longrightarrow> \<not> pageBefore m b a"
  unfolding pageBefore_rank by auto

lemma pageBefore_trans: "pageBefore m a b \<Longrightarrow> pageBefore m b c \<Longrightarrow> pageBefore m a c"
  unfolding pageBefore_rank by auto

lemma sorted_sortInsert:
  assumes asym: "\<And>a b. before a b \<Longrightarrow> \<not> before b a"
    and trans: "\<And>a b c. before a b \<Longrightarrow> before b c \<Longrightarrow> before a c"
    and srt: "sorted_wrt (\<lambda>a b. \<not> before b a) ys"
  shows "sorted_wrt (\<lambda>a b. \<not> before b a) (sortInsert before v ys)"
  using srt
proof (induction ys)
  case Nil
  then show ?case by simp
next
  case (Cons y ys)
  show ?case
  proof (cases "before v y")
    case True
    have "\<not> before z v" if z: "z \<in> set ys" for z
    proof
      assume "before z v"
      then have "before z y" using True by (rule trans)
      moreover have "\<not> before z y" using Cons.prems z by simp
      ultimately show False by simp
    qed
    moreover have "\<not> before y v" using True by (rule asym)
    ultimately show ?thesis using True Cons.prems by simp
  next
    case False
    then show ?thesis using Cons by simp
  qed
qed

lemma sorted_stdSort:
  assumes "\<And>a b. before a b \<Longrightarrow> \<not> before b a"
    and "\<And>a b c. before a b \<Longrightarrow> before b c \<Longrightarrow> before a c"
  shows "sorted_wrt (\<lambda>a b. \<not> before b a) (stdSort before vs)"
proof (induction vs)
  case Nil
  show ?case by simp
next
  case (Cons v vs)
  have "sorted_wrt (\<lambda>a b. \<not> before b a) (sortInsert before v (stdSort before vs))"
    using assms Cons by (rule sorted_sortInsert)
  then show ?case by simp
qed

lemma sorted_pages:
  "sorted_wrt (\<lambda>a b. \<not> pageBefore m b a) (stdSort (pageBefore m) vs)"
  by (rule sorted_stdSort) (erule pageBefore_asym, erule (1) pageBefore_trans)


lemma pageBefore_not:
  "\<not> pageBefore m b a \<longleftrightarrow>
     (pageIdExtractMipLevel a > pageIdExtractMipLevel b
      \<or> (pageIdExtractMipLevel a = pageIdExtractMipLevel b
          \<and> pageMap_lookup m a \<ge> pageMap_lookup m b))"
  by (auto simp: pageBefore_def Let_def)

lemma countPages_empty:
  "distinct (map fst (countPages fs []))"
  "set (map fst (countPages fs [])) = set fs - {InvalidPageId}"
  "pageMap_lookup (countPages fs []) q = (if q = InvalidPageId then 0 else count_list fs q)"
  using countPages_props[of "[]" fs] by (simp_all add: pageMap_lookup_def)

section \<open>feedbackBufferAnalysis: the sorted list of unique pages\<close>

text \<open>Claim C6. For every content of the feedback buffer, \<open>feedbackBufferAnalysis\<close>
  skips the pixels equal to the all-ones sentinel (the sentinel has no count and is not in
  the list), counts for every other page id its number of occurrences in the buffer, and
  produces the list of the unique page ids of the buffer, each once, ordered by mip level
  descending and, among ids of the same mip level, by number of occurrences descending;
  \<open>visiblePages\<close> is the number of unique page ids other than the sentinel.\<close>

theorem feedbackBufferAnalysis_sorted_unique_pages:
  "(let r = feedbackBufferAnalysis framePages maxRequests in
      pageMap_lookup (fa_pageMap r) InvalidPageId = 0
    \<and> (\<forall>p. p \<noteq> InvalidPageId \<longrightarrow> pageMap_lookup (fa_pageMap r) p = count_list framePages p)
    \<and> distinct (fa_sortedPages r)
    \<and> set (fa_sortedPages r) = set framePages - {InvalidPageId}
    \<and> sorted_wrt (\<lambda>a b. pageIdExtractMipLevel a > pageIdExtractMipLevel b
                      \<or> (pageIdExtractMipLevel a = pageIdExtractMipLevel b
                          \<and> count_list framePages a \<ge> count_list framePages b))
                 (fa_sortedPages r)
    \<and> fa_visiblePages r = int (card (set framePages - {InvalidPageId})))"
proof -
  define pm where "pm = countPages framePages []"
  define sp where "sp = stdSort (pageBefore pm) (map fst pm)"
  have d: "distinct (map fst pm)"
    and k: "set (map fst pm) = set framePages - {InvalidPageId}"
    and c: "\<And>q. pageMap_lookup pm q = (if q = InvalidPageId then 0 else count_list framePages q)"
    unfolding pm_def by (rule countPages_empty)+
  have s1: "sorted_wrt (\<lambda>a b. \<not> pageBefore pm b a) sp"
    unfolding sp_def by (rule sorted_pages)
  have sset: "set sp = set framePages - {InvalidPageId}"
    unfolding sp_def using k by simp
  have s2: "sorted_wrt (\<lambda>a b. pageIdExtractMipLevel a > pageIdExtractMipLevel b
                      \<or> (pageIdExtractMipLevel a = pageIdExtractMipLevel b
                          \<and> count_list framePages a \<ge> count_list framePages b)) sp"
  proof (rule sorted_wrt_mono_rel[OF _ s1])
    fix a b assume "a \<in> set sp" "b \<in> set sp" "\<not> pageBefore pm b a"
    then show "pageIdExtractMipLevel a > pageIdExtractMipLevel b
                      \<or> (pageIdExtractMipLevel a = pageIdExtractMipLevel b
                          \<and> count_list framePages a \<ge> count_list framePages b)"
      unfolding pageBefore_not sset by (simp add: c)
  qed
  have v: "length pm = card (set framePages - {InvalidPageId})"
    using distinct_card[OF d] k by simp
  have dsp: "distinct sp" unfolding sp_def using d by simp
  have r: "feedbackBufferAnalysis framePages maxRequests
        = \<lparr> fa_pageMap = pm, fa_sortedPages = sp, fa_visiblePages = int (length pm),
            fa_maxPageRequestsPerFrame =
              (if int (length pm) \<ge> int TotalTablePages then int TotalTablePages else maxRequests) \<rparr>"
    by (simp add: feedbackBufferAnalysis_def Let_def pm_def sp_def)
  show ?thesis
    unfolding r Let_def using dsp sset s2 v by (simp add: c)
qed

lemma exampleFeedback_analysis:
  "fa_sortedPages (feedbackBufferAnalysis exampleFeedback 64)
     = [makePageId 0 0 1 0, makePageId 1 0 0 0, makePageId 0 0 0 0]"
  "fa_visiblePages (feedbackBufferAnalysis exampleFeedback 64) = 3"
  "fa_pageMap (feedbackBufferAnalysis exampleFeedback 64)
     = [(makePageId 0 0 0 0, 1), (makePageId 1 0 0 0, 2), (makePageId 0 0 1 0, 1)]"
  "makePageId 1 0 0 0 \<noteq> InvalidPageId"
  "count_list exampleFeedback (makePageId 1 0 0 0) = 2"
  by code_simp+

theorem feedbackBufferAnalysis_sorted_unique_pages_witness:
  "makePageId 1 0 0 0 \<noteq> InvalidPageId
   \<and> pageMap_lookup (fa_pageMap (feedbackBufferAnalysis exampleFeedback 64)) (makePageId 1 0 0 0)
       = count_list exampleFeedback (makePageId 1 0 0 0)
   \<and> count_list exampleFeedback (makePageId 1 0 0 0) = 2
   \<and> fa_sortedPages (feedbackBufferAnalysis exampleFeedback 64)
       = [makePageId 0 0 1 0, makePageId 1 0 0 0, makePageId 0 0 0 0]
   \<and> set (fa_sortedPages (feedbackBufferAnalysis exampleFeedback 64))
       = set exampleFeedback - {InvalidPageId}
   \<and> fa_visiblePages (feedbackBufferAnalysis exampleFeedback 64) = 3
   \<and> card (set exampleFeedback - {InvalidPageId}) = 3"
  using feedbackBufferAnalysis_sorted_unique_pages[of exampleFeedback 64]
  by (simp add: exampleFeedback_analysis Let_def)

section \<open>The loops of updateIndirectionTexture\<close>

lemma forEach_inv:
  assumes "forEach body vs s = Some s'" and "I s"
    and "\<And>v t t'. v \<in> set vs \<Longrightarrow> I t \<Longrightarrow> body v t = Some t' \<Longrightarrow> I t'"
  shows "I s'"
  using assms
proof (induction vs arbitrary: s)
  case Nil
  then show ?case by simp
next
  case (Cons v vs)
  from Cons.prems(1) obtain t where t: "body v s = Some t" "forEach body vs t = Some s'"
    by (auto split: option.splits)
  have "I t" using Cons.prems(3)[of v s t] t(1) Cons.prems(2) by simp
  then show ?case
  proof (rule Cons.IH[OF t(2)])
    fix w u u' assume "w \<in> set vs" "I u" "body w u = Some u'"
    then show "I u'" using Cons.prems(3)[of w u u'] by simp
  qed
qed

lemma forEach_total:
  assumes "I s"
    and "\<And>v t. v \<in> set vs \<Longrightarrow> I t \<Longrightarrow> \<exists>t'. body v t = Some t' \<and> I t'"
  shows "\<exists>s'. forEach body vs s = Some s' \<and> I s'"
  using assms
proof (induction vs arbitrary: s)
  case Nil
  then show ?case by simp
next
  case (Cons v vs)
  obtain t where t: "body v s = Some t" "I t"
    using Cons.prems(2)[of v s] Cons.prems(1) by auto
  have "\<exists>s'. forEach body vs t = Some s' \<and> I s'"
  proof (rule Cons.IH[OF t(2)])
    fix w u assume "w \<in> set vs" "I u"
    then show "\<exists>t'. body w u = Some t' \<and> I t'" using Cons.prems(2)[of w u] by simp
  qed
  then show ?case using t(1) by simp
qed

lemma cell_bound:
  fixes x y w h :: nat
  assumes "x < w" "y < h"
  shows "x + y * w < w * h"
proof -
  have "Suc y * w \<le> h * w" using assms(2) by (intro mult_le_mono1) simp
  then show ?thesis using assms(1) by (simp add: algebra_simps)
qed



lemma levelBase_Suc: "levelBase tbl (Suc l) = levelBase tbl l + levelCells tbl l"
  by (simp add: levelBase_def levelCells_def)

lemma levelBase_mono: "l \<le> m \<Longrightarrow> levelBase tbl l \<le> levelBase tbl m"
proof (induction m)
  case 0
  then show ?case by simp
next
  case (Suc m)
  then show ?case by (cases "l = Suc m") (simp_all add: levelBase_Suc)
qed

lemma table_wfD:
  assumes "table_wf tbl" "l < nat (it_numLevels tbl)"
  shows "0 < it_numPagesX tbl ! l" "0 < it_numPagesY tbl ! l"
    "tableLevels tbl ! l = levelBase tbl l"
    "levelBase tbl (Suc l) \<le> length (tableEntryPool tbl)"
proof -
  show "0 < it_numPagesX tbl ! l" "0 < it_numPagesY tbl ! l"
    "tableLevels tbl ! l = levelBase tbl l"
    using assms by (simp_all add: table_wf_def list_all_iff levelBase_def)
  have "length (tableEntryPool tbl) = levelBase tbl (nat (it_numLevels tbl))"
    using assms(1) by (simp add: table_wf_def levelBase_def)
  moreover have "levelBase tbl (Suc l) \<le> levelBase tbl (nat (it_numLevels tbl))"
    using assms(2) by (intro levelBase_mono) simp
  ultimately show "levelBase tbl (Suc l) \<le> length (tableEntryPool tbl)" by simp
qed

lemma levelCells_eq:
  assumes "0 < it_numPagesX tbl ! l" "0 < it_numPagesY tbl ! l"
  shows "levelCells tbl l = nat (it_numPagesX tbl ! l) * nat (it_numPagesY tbl ! l)"
  using assms by (simp add: levelCells_def nat_mult_distrib)







lemma upsampleCell_eq:
  assumes pos: "0 < it_numPagesX tbl ! l" "0 < it_numPagesX tbl ! (l - 1)"
  shows "upsampleCell tbl l yx pool =
      (if destCell tbl l yx < length pool
       then Some (pool[destCell tbl l yx := readEntry tbl pool (int (srcCell tbl l yx))])
       else None)"
proof -
  obtain y x where yx: "yx = (y, x)" by (cases yx)
  have s: "int (tableLevels tbl ! l) + (int x div 2 + (int y div 2) * it_numPagesX tbl ! l)
         = int (srcCell tbl l yx)"
    using pos(1) by (simp add: srcCell_def yx zdiv_int)
  have d: "int (tableLevels tbl ! (l - 1)) + (int x + int y * it_numPagesX tbl ! (l - 1))
         = int (destCell tbl l yx)"
    using pos(2) by (simp add: destCell_def yx)
  show ?thesis
    unfolding upsampleCell_def Let_def yx fst_conv snd_conv s[unfolded yx] d[unfolded yx]
    by simp
qed


lemma upsampleCell_total:
  assumes pos: "0 < it_numPagesX tbl ! l" "0 < it_numPagesX tbl ! (l - 1)"
    and "destCell tbl l yx < length pool"
  shows "upsampleCell tbl l yx pool
         = Some (pool[destCell tbl l yx := readEntry tbl pool (int (srcCell tbl l yx))])"
  using assms(3) unfolding upsampleCell_eq[OF pos] by simp


lemma destCell_range:
  assumes wf: "table_wf tbl" and l: "0 < l" "l < nat (it_numLevels tbl)"
    and xy: "x < nat (it_numPagesX tbl ! (l - 1))" "y < nat (it_numPagesY tbl ! (l - 1))"
  shows "levelBase tbl (l - 1) \<le> destCell tbl l (y, x)" "destCell tbl l (y, x) < levelBase tbl l"
proof -
  have l1: "l - 1 < nat (it_numLevels tbl)" using l by simp
  note d = table_wfD[OF wf l1]
  show "levelBase tbl (l - 1) \<le> destCell tbl l (y, x)"
    unfolding destCell_def d(3) by simp
  have "x + y * nat (it_numPagesX tbl ! (l - 1)) < levelCells tbl (l - 1)"
    unfolding levelCells_eq[OF d(1,2)] using xy by (rule cell_bound)
  moreover have "levelBase tbl l = levelBase tbl (l - 1) + levelCells tbl (l - 1)"
    using levelBase_Suc[of tbl "l - 1"] l(1) by simp
  ultimately show "destCell tbl l (y, x) < levelBase tbl l"
    unfolding destCell_def d(3) by simp
qed





lemma writePage_total:
  assumes wf: "table_wf tbl" and l: "l < nat (it_numLevels tbl)"
    and rng: "pageId ce = InvalidPageId
              \<or> it_numLevels tbl \<le> pageIdExtractMipLevel (pageId ce)
              \<or> (pageIdExtractPageX (pageId ce)
                    < it_numPagesX tbl ! nat (pageIdExtractMipLevel (pageId ce))
                  \<and> pageIdExtractPageY (pageId ce)
                    < it_numPagesY tbl ! nat (pageIdExtractMipLevel (pageId ce)))"
    and len: "length pool = length (tableEntryPool tbl)"
  shows "\<exists>pool'. writePage wr tbl l ce pool = Some pool' \<and> length pool' = length pool"
proof (cases "pageIdExtractMipLevel (pageId ce) \<noteq> int l \<or> pageId ce = InvalidPageId")
  case True
  then show ?thesis by (auto simp: writePage_def)
next
  case False
  then have lev: "pageIdExtractMipLevel (pageId ce) = int l" and v: "pageId ce \<noteq> InvalidPageId"
    by simp_all
  note d = table_wfD[OF wf l]
  define ix where "ix = pageIdExtractPageX (pageId ce)
                          + pageIdExtractPageY (pageId ce) * it_numPagesX tbl ! l"
  have xy: "pageIdExtractPageX (pageId ce) < it_numPagesX tbl ! l"
      "pageIdExtractPageY (pageId ce) < it_numPagesY tbl ! l"
  proof -
    have "\<not> it_numLevels tbl \<le> int l" using l by linarith
    then show "pageIdExtractPageX (pageId ce) < it_numPagesX tbl ! l"
      "pageIdExtractPageY (pageId ce) < it_numPagesY tbl ! l"
      using rng v by (simp_all add: lev)
  qed
  have i0: "0 \<le> ix" and i1: "ix < it_numPagesX tbl ! l * it_numPagesY tbl ! l"
    unfolding ix_def
    using pageIndex_bounds[OF extract_ranges(1) xy(1) extract_ranges(3) xy(2)] by simp_all
  have "nat ix < levelCells tbl l" using i0 i1 by (simp add: levelCells_def)
  then have "levelBase tbl l + nat ix < levelBase tbl (Suc l)" by (simp add: levelBase_Suc)
  then have a: "tableLevels tbl ! l + nat ix < length pool" using d(3,4) len by simp
  have "writePage wr tbl l ce pool
        = Some (pool[tableLevels tbl ! l + nat ix
                     := wr l ce (pool ! (tableLevels tbl ! l + nat ix))])"
    using lev v i0 i1 a unfolding writePage_def Let_def ix_def by simp
  then show ?thesis by simp
qed

lemma upsample_total:
  assumes wf: "table_wf tbl" and l: "0 < l" "l < nat (it_numLevels tbl)"
    and len: "length pool = length (tableEntryPool tbl)"
  shows "\<exists>pool'. upsample tbl l pool = Some pool' \<and> length pool' = length (tableEntryPool tbl)"
proof -
  have l1: "l - 1 < nat (it_numLevels tbl)" using l by simp
  note dl = table_wfD[OF wf l(2)]
  note d1 = table_wfD[OF wf l1]
  have step: "\<exists>p'. upsampleCell tbl l c p = Some p' \<and> length p' = length (tableEntryPool tbl)"
    if c: "c \<in> set (List.product [0..<nat (it_numPagesY tbl ! (l - 1))]
                                 [0..<nat (it_numPagesX tbl ! (l - 1))])"
      and p: "length p = length (tableEntryPool tbl)" for c p
  proof -
    obtain y x where yx: "c = (y, x)" by (cases c)
    have xy: "x < nat (it_numPagesX tbl ! (l - 1))" "y < nat (it_numPagesY tbl ! (l - 1))"
      using c unfolding yx by simp_all
    have "destCell tbl l (y, x) < levelBase tbl l" using wf l xy by (rule destCell_range)
    moreover have "levelBase tbl l \<le> levelBase tbl (Suc l)" by (rule levelBase_mono) simp
    ultimately have d: "destCell tbl l c < length p" using dl(4) p by (simp add: yx)
    show ?thesis using upsampleCell_total[OF dl(1) d1(1) d] p by simp
  qed
  have "\<exists>s'. forEach (upsampleCell tbl l)
                (List.product [0..<nat (it_numPagesY tbl ! (l - 1))]
                              [0..<nat (it_numPagesX tbl ! (l - 1))]) pool = Some s'
             \<and> length s' = length (tableEntryPool tbl)"
    using len step by (rule forEach_total)
  then show ?thesis unfolding upsample_def Let_def by simp
qed

lemma levels_total:
  assumes wf: "table_wf tbl" and rng: "pagesInRange tbl pages"
    and m: "m \<le> nat (it_numLevels tbl)"
  shows "\<exists>pool'. forEach (levelStep wr tbl pages) (rev [0..<m]) (tableEntryPool tbl) = Some pool'
                 \<and> length pool' = length (tableEntryPool tbl)"
proof -
  have step: "\<exists>p'. levelStep wr tbl pages l p = Some p' \<and> length p' = length (tableEntryPool tbl)"
    if lm: "l \<in> set (rev [0..<m])" and p: "length p = length (tableEntryPool tbl)" for l p
  proof -
    have l: "l < nat (it_numLevels tbl)" using lm m by simp
    have w: "\<exists>t'. writePage wr tbl l ce t = Some t' \<and> length t' = length (tableEntryPool tbl)"
      if ce: "ce \<in> set pages" and t: "length t = length (tableEntryPool tbl)" for ce t
    proof -
      have "\<exists>pool'. writePage wr tbl l ce t = Some pool' \<and> length pool' = length t"
        using wf l _ t
      proof (rule writePage_total)
        show "pageId ce = InvalidPageId
              \<or> it_numLevels tbl \<le> pageIdExtractMipLevel (pageId ce)
              \<or> (pageIdExtractPageX (pageId ce)
                    < it_numPagesX tbl ! nat (pageIdExtractMipLevel (pageId ce))
                  \<and> pageIdExtractPageY (pageId ce)
                    < it_numPagesY tbl ! nat (pageIdExtractMipLevel (pageId ce)))"
          using rng ce unfolding pagesInRange_def list_all_iff by blast
      qed
      then show ?thesis using t by simp
    qed
    have "\<exists>p1. forEach (writePage wr tbl l) pages p = Some p1
               \<and> length p1 = length (tableEntryPool tbl)"
      using p w by (rule forEach_total)
    then obtain p1 where p1: "forEach (writePage wr tbl l) pages p = Some p1"
        "length p1 = length (tableEntryPool tbl)" by blast
    show ?thesis
    proof (cases "l = 0")
      case True
      then show ?thesis using p1 by (simp add: levelStep_def)
    next
      case False
      then have l0: "0 < l" by simp
      have "\<exists>pool'. upsample tbl l p1 = Some pool' \<and> length pool' = length (tableEntryPool tbl)"
        using wf l0 l p1(2) by (rule upsample_total)
      then show ?thesis using p1(1) False by (simp add: levelStep_def)
    qed
  qed
  have "length (tableEntryPool tbl) = length (tableEntryPool tbl)" by simp
  then show ?thesis using step by (rule forEach_total)
qed





lemma pagesInRange_take: "pagesInRange tbl pages \<Longrightarrow> pagesInRange tbl (take k pages)"
  unfolding pagesInRange_def list_all_iff using in_set_takeD by fast

lemma updateIndirection_total:
  assumes wf: "table_wf tbl" and rng: "pagesInRange tbl pages"
    and len: "TotalCachePages \<le> length pages"
    and bound: "indirectionTextureId tbl = bound"
  shows "updateIndirection wr tbl bound (Some pages) \<noteq> None"
proof -
  have "\<exists>pool'. forEach (levelStep wr tbl (take TotalCachePages pages))
                   (rev [0..<nat (it_numLevels tbl)]) (tableEntryPool tbl) = Some pool'
                 \<and> length pool' = length (tableEntryPool tbl)"
    using wf pagesInRange_take[OF rng] order_refl by (rule levels_total)
  then show ?thesis using len bound unfolding updateIndirection_def by auto
qed

text \<open>On a mip chain the entry read for the cell \<open>(x, y)\<close> of level \<open>L - 1\<close> is at a
  position of level \<open>L\<close>.\<close>

lemma mipChain_position:
  assumes chain: "mipChain tbl" and L: "0 < L" "int L < it_numLevels tbl"
    and xy: "int x < it_numPagesX tbl ! (L - 1)" "int y < it_numPagesY tbl ! (L - 1)"
  shows "int (x div 2) < it_numPagesX tbl ! L" "int (y div 2) < it_numPagesY tbl ! L"
proof -
  have "L \<in> set [1..<nat (it_numLevels tbl)]" using L by simp
  then have half: "it_numPagesX tbl ! (L - 1) \<le> 2 * it_numPagesX tbl ! L"
      "it_numPagesY tbl ! (L - 1) \<le> 2 * it_numPagesY tbl ! L"
    using chain unfolding mipChain_def list_all_iff by blast+
  show "int (x div 2) < it_numPagesX tbl ! L" "int (y div 2) < it_numPagesY tbl ! L"
    using half xy by linarith+
qed

text \<open>The constructors build tables of the shape \<open>table_wf\<close>.\<close>

lemma length_level_pools:
  "length (concat (map (\<lambda>l. replicate (nat (pagesX ! l * pagesY ! l)) (dflt l)) [0..<n]))
   = levelOffset pagesX pagesY n"
  by (induction n) simp_all

lemma PageIndirectionTable_new_wf:
  assumes "PageIndirectionTable_new vtPagesX vtPagesY vtNumLevels log2Wide dflt texId heap = Some tbl"
  shows "table_wf tbl" "indirectionTextureId tbl = texId" "it_numLevels tbl = vtNumLevels"
    "\<And>l. l < nat vtNumLevels
       \<Longrightarrow> it_numPagesX tbl ! l = vtPagesX ! l \<and> it_numPagesY tbl ! l = vtPagesY ! l"
proof -
  define n where "n = nat vtNumLevels"
  define pagesX where "pagesX = take n vtPagesX @ replicate (nat MaxVTMipLevels - n) 0"
  define pagesY where "pagesY = take n vtPagesY @ replicate (nat MaxVTMipLevels - n) 0"
  have c: "vtNumLevels > 0" "vtNumLevels \<le> MaxVTMipLevels" "n \<le> length vtPagesX"
      "n \<le> length vtPagesY" "list_all (\<lambda>l. vtPagesX ! l > 0 \<and> vtPagesY ! l > 0) [0..<n]"
    and tbl: "tbl = \<lparr> indirectionTextureId = texId, it_numLevels = vtNumLevels,
                  it_numPagesX = pagesX, it_numPagesY = pagesY, log2VirtPagesWide = log2Wide,
                  tableLevels = map (levelOffset pagesX pagesY) [0..<n]
                                  @ replicate (nat MaxVTMipLevels - n) 0,
                  tableEntryPool =
                    concat (map (\<lambda>l. replicate (nat (pagesX ! l * pagesY ! l)) (dflt pagesX l))
                                [0..<n]),
                  beyondPool = heap \<rparr>"
    using assms unfolding PageIndirectionTable_new_def Let_def n_def pagesX_def pagesY_def
    by (simp_all split: if_splits)
  have nx: "pagesX ! l = vtPagesX ! l" "pagesY ! l = vtPagesY ! l" if "l < n" for l
    using that c(3,4) by (simp_all add: pagesX_def pagesY_def nth_append)
  show "indirectionTextureId tbl = texId" "it_numLevels tbl = vtNumLevels" by (simp_all add: tbl)
  show "it_numPagesX tbl ! l = vtPagesX ! l \<and> it_numPagesY tbl ! l = vtPagesY ! l"
    if "l < nat vtNumLevels" for l
    using nx[of l] that by (simp add: tbl n_def)
  have lv: "0 < pagesX ! l \<and> 0 < pagesY ! l
            \<and> (map (levelOffset pagesX pagesY) [0..<n] @ replicate (nat MaxVTMipLevels - n) 0) ! l
              = levelOffset pagesX pagesY l" if "l < n" for l
    using that c(5) nx[OF that] by (simp add: list_all_iff nth_append)
  show "table_wf tbl"
    unfolding table_wf_def tbl using c(1,2) lv length_level_pools[of pagesX pagesY "dflt pagesX" n]
    by (simp add: list_all_iff n_def)
qed

lemma PageIndirectionTableRgba8888_new_wf:
  assumes "PageIndirectionTableRgba8888_new vtPagesX vtPagesY vtNumLevels texId heap = Some tbl"
  shows "table_wf tbl"
  using assms unfolding PageIndirectionTableRgba8888_new_def by (rule PageIndirectionTable_new_wf)

lemma PageIndirectionTableRgb565_new_wf:
  assumes "PageIndirectionTableRgb565_new vtPagesX vtPagesY vtNumLevels texId heap = Some tbl"
  shows "table_wf tbl"
proof -
  have "PageIndirectionTable_new vtPagesX vtPagesY vtNumLevels
          (int (log2floor (nat (vtPagesX ! 0))))
          (defaultEntryRgb565 (int (log2floor (nat (vtPagesX ! 0))))) texId heap = Some tbl"
    using assms unfolding PageIndirectionTableRgb565_new_def Let_def by (simp split: if_splits)
  then show ?thesis by (rule PageIndirectionTable_new_wf)
qed

text \<open>The entries of a cache manager that keeps its invariant are pages of the table
  built for the same virtual texture.\<close>

lemma cache_pagesInRange:
  assumes inv: "cache_inv s"
    and dims: "it_numLevels tbl = numLevels (cachePageTree s)"
      "it_numPagesX tbl = numPagesX (cachePageTree s)"
      "it_numPagesY tbl = numPagesY (cachePageTree s)"
  shows "pagesInRange tbl (cacheEntryPool s)"
  using inv unfolding cache_inv_def entries_ok_def pagesInRange_def list_all_iff dims
    validId_def validPageRequest_def getNumPagesX_def getNumPagesY_def
  by auto

section \<open>updateIndirectionTexture: a level is the upsampling of the level above\<close>








section \<open>The loop of frameUpdate\<close>

lemma forEach_append:
  "forEach body (xs @ ys) s
   = (case forEach body xs s of None \<Rightarrow> None | Some s' \<Rightarrow> forEach body ys s')"
  by (induction xs arbitrary: s) (simp_all split: option.splits)

lemma forEach_cong:
  assumes "\<And>v t. v \<in> set vs \<Longrightarrow> f v t = g v t"
  shows "forEach f vs s = forEach g vs s"
  using assms by (induction vs arbitrary: s) (simp_all split: option.splits)

lemma forEach_skip:
  assumes "\<And>t. body v t = Some t"
  shows "forEach body (xs @ v # ys) s = forEach body (xs @ ys) s"
  using assms by (simp add: forEach_append split: option.splits)

text \<open>The page counts of the tree do not change.\<close>

lemma allocPageEntry_dims:
  assumes "allocPageEntry s = Some (e, s')"
  shows "numLevels (cachePageTree s') = numLevels (cachePageTree s)"
    "numPagesX (cachePageTree s') = numPagesX (cachePageTree s)"
    "numPagesY (cachePageTree s') = numPagesY (cachePageTree s)"
  using assms
  by (auto simp: allocPageEntry_def CachePageTree_set_id_def Let_def tree_set_dims
           split: bind_splits if_splits)

lemma accommodatePage_dims:
  assumes "accommodatePage pid s = Some (c, s')"
  shows "numLevels (cachePageTree s') = numLevels (cachePageTree s)"
    "numPagesX (cachePageTree s') = numPagesX (cachePageTree s)"
    "numPagesY (cachePageTree s') = numPagesY (cachePageTree s)"
  using assms
  by (auto simp: accommodatePage_def Let_def tree_set_dims allocPageEntry_dims
           split: bind_splits if_splits prod.splits)

text \<open>The cache coordinates.\<close>

lemma coords_ok_map:
  assumes "map cacheCoord (cacheEntryPool s') = map cacheCoord (cacheEntryPool s)"
  shows "coords_ok s' = coords_ok s"
proof -
  have "coords_ok u = list_all coordInTable (map cacheCoord (cacheEntryPool u))" for u
    by (simp add: coords_ok_def list_all_iff)
  then show ?thesis using assms by simp
qed

lemma fold_inv:
  assumes "P s" and "\<And>x t. x \<in> set xs \<Longrightarrow> P t \<Longrightarrow> P (f x t)"
  shows "P (fold f xs s)"
  using assms
proof (induction xs arbitrary: s)
  case Nil
  from Nil(1) show ?case by simp
next
  case (Cons x xs)
  have "P (f x s)" using Cons.prems(2)[of x s] Cons.prems(1) by simp
  then have "P (fold f xs (f x s))"
  proof (rule Cons.IH)
    fix y t assume "y \<in> set xs" "P t"
    then show "P (f y t)" using Cons.prems(2)[of y t] by simp
  qed
  then show ?case by simp
qed

lemma coord_small:
  assumes "c < CacheSizeInPages"
  shows "uint (of_nat c :: 8 word) < int TableSizeInPages"
proof -
  have "c < 16" using assms by (simp add: CacheSizeInPages_def)
  then have "take_bit 8 c = c" by (intro take_bit_nat_eq_self) simp
  then have "unat (of_nat c :: 8 word) = c" by (simp add: unsigned_of_nat)
  then have "uint (of_nat c :: 8 word) = int c" by (simp add: uint_nat)
  then show ?thesis using \<open>c < 16\<close> by (simp add: TableSizeInPages_def)
qed

lemma initEntries_coords:
  assumes "list_all (\<lambda>en. coordInTable (cacheCoord en)) es"
  shows "list_all (\<lambda>en. coordInTable (cacheCoord en)) (initEntries es)"
  unfolding initEntries_def
proof (rule fold_inv[where P = "list_all (\<lambda>en. coordInTable (cacheCoord en))", OF assms])
  fix cx t
  assume cx: "cx \<in> set [0..<CacheSizeInPages]"
    and t: "list_all (\<lambda>en. coordInTable (cacheCoord en)) t"
  show "list_all (\<lambda>en. coordInTable (cacheCoord en))
          (fold (\<lambda>cy es'.
             es'[cx + cy * CacheSizeInPages :=
                   (es' ! (cx + cy * CacheSizeInPages))\<lparr> cacheCoord := (of_nat cx, of_nat cy),
                                                          pageId := InvalidPageId \<rparr>])
           [0..<CacheSizeInPages] t)"
  proof (rule fold_inv[where P = "list_all (\<lambda>en. coordInTable (cacheCoord en))", OF t])
    fix cy u
    assume cy: "cy \<in> set [0..<CacheSizeInPages]"
      and u: "list_all (\<lambda>en. coordInTable (cacheCoord en)) u"
    have "coordInTable (of_nat cx, of_nat cy)"
      using cx cy by (simp add: coordInTable_def coord_small)
    then show "list_all (\<lambda>en. coordInTable (cacheCoord en))
            (u[cx + cy * CacheSizeInPages :=
                   (u ! (cx + cy * CacheSizeInPages))\<lparr> cacheCoord := (of_nat cx, of_nat cy),
                                                          pageId := InvalidPageId \<rparr>])"
      using u by (intro list_all_update) simp_all
  qed
qed

lemma map_cacheCoord_update:
  assumes "cacheCoord x = cacheCoord (xs ! i)"
  shows "map cacheCoord (xs[i := x]) = map cacheCoord xs"
proof (cases "i < length xs")
  case True
  have "(map cacheCoord xs)[i := map cacheCoord xs ! i] = map cacheCoord xs"
    by (rule list_update_id)
  then show ?thesis using True assms by (simp add: map_update)
next
  case False
  then have "xs[i := x] = xs" by (intro list_update_beyond) simp
  then show ?thesis by simp
qed

lemma purgeEntries_coords: "map cacheCoord (purgeEntries n es) = map cacheCoord es"
proof (induction n)
  case 0
  show ?case by simp
next
  case (Suc n)
  have "map cacheCoord (purgeEntries (Suc n) es) = map cacheCoord (purgeEntries n es)"
    unfolding purgeEntries.simps Let_def by (rule map_cacheCoord_update) simp
  then show ?case using Suc by simp
qed

lemma PageCacheMgr_new_coords:
  assumes "PageCacheMgr_new vtPagesX vtPagesY n = Some s"
  shows "coords_ok s"
proof -
  obtain t where s: "s = purgeCache \<lparr> stats = clearedStats, mru = None, lru = None, cachePageTree = t,
                          cacheEntryPool = initEntries (replicate TotalCachePages clearedEntry) \<rparr>"
    using assms by (auto simp: PageCacheMgr_new_def split: bind_splits)
  have "list_all (\<lambda>en. coordInTable (cacheCoord en)) (replicate TotalCachePages clearedEntry)"
    by (simp add: list_all_iff clearedEntry_def coordInTable_def TableSizeInPages_def)
  then have "list_all (\<lambda>en. coordInTable (cacheCoord en))
          (initEntries (replicate TotalCachePages clearedEntry))"
    by (rule initEntries_coords)
  then have "list_all coordInTable
          (map cacheCoord (purgeEntries TotalCachePages
                             (initEntries (replicate TotalCachePages clearedEntry))))"
    unfolding purgeEntries_coords by (simp add: list_all_iff)
  then show ?thesis by (simp add: s coords_ok_def purgeCache_def list_all_iff)
qed

text \<open>\<open>accommodatePage\<close> in a cache that satisfies the invariant: what the loop of
  \<open>frameUpdate\<close> needs of it.\<close>

lemma accommodatePage_frame:
  assumes inv: "cache_inv s" and v: "validId s pid" and co: "coords_ok s"
  shows "\<exists>c s'. accommodatePage pid s = Some (c, s') \<and> cache_inv s' \<and> coords_ok s'
          \<and> validId s' = validId s
          \<and> coordInTable c
          \<and> numLevels (cachePageTree s') = numLevels (cachePageTree s)
          \<and> numPagesX (cachePageTree s') = numPagesX (cachePageTree s)
          \<and> numPagesY (cachePageTree s') = numPagesY (cachePageTree s)
          \<and> servicedRequests (stats s') = servicedRequests (stats s) + 1
          \<and> (\<exists>e. slotOf s' pid = Some (EntryPtr e))
          \<and> stillWantPage pid s' = Some False
          \<and> (\<forall>q. validId s q \<and> slotOf s q \<noteq> Some RequestedPageDummy
                 \<longrightarrow> slotOf s' q \<noteq> Some RequestedPageDummy)"
proof -
  let ?e = "last (lru_order s)"
  obtain s' where s': "accommodatePage pid s = Some (cacheCoord (cacheEntryPool s ! ?e), s')"
      "map cacheCoord (cacheEntryPool s') = map cacheCoord (cacheEntryPool s)"
    using accommodatePage_spec[OF inv v] by blast
  obtain c2 s2 where n: "accommodatePage pid s = Some (c2, s2)" "cache_inv s2"
      "validId s2 = validId s"
      "servicedRequests (stats s2) = servicedRequests (stats s) + 1"
      "slotOf s2 pid = Some (EntryPtr ?e)" "stillWantPage pid s2 = Some False"
      "\<forall>q. validId s q \<and> slotOf s q \<noteq> Some RequestedPageDummy
                 \<longrightarrow> slotOf s2 q \<noteq> Some RequestedPageDummy"
    using accommodatePage_not_in_flight[OF inv v] by blast
  have e2: "s2 = s'" "c2 = cacheCoord (cacheEntryPool s ! ?e)" using s'(1) n(1) by simp_all
  note ch = cache_invD(1)[OF inv]
  have "?e \<in> set (lru_order s)" using chain_of_ends(3)[OF ch] .
  then have "?e < TotalCachePages" using chain_of_set[OF ch] by auto
  then have "cacheEntryPool s ! ?e \<in> set (cacheEntryPool s)"
    using cache_invD(5)[OF inv] by simp
  then have c: "coordInTable (cacheCoord (cacheEntryPool s ! ?e))"
    using co by (auto simp: coords_ok_def list_all_iff)
  have co': "coords_ok s'" using coords_ok_map[OF s'(2)] co by simp
  note dims = accommodatePage_dims[OF s'(1)]
  show ?thesis using s'(1) n(2-7) c co' dims unfolding e2 by blast
qed

text \<open>Uploads.\<close>

lemma sameButUploads_refl: "sameButUploads vt vt"
  by (simp add: sameButUploads_def)

lemma sameButUploads_trans:
  "sameButUploads a b \<Longrightarrow> sameButUploads b c \<Longrightarrow> sameButUploads a c"
  by (simp add: sameButUploads_def)

lemma sameButUploads_length:
  assumes "sameButUploads vt vt'"
  shows "length (pageTables vt') = length (pageTables vt)"
  using assms map_eq_imp_length_eq unfolding sameButUploads_def by blast

lemma sameButUploads_id:
  assumes "sameButUploads vt vt'" "t < length (pageTables vt)"
  shows "pageTextureId (pageTables vt' ! t) = pageTextureId (pageTables vt ! t)"
proof -
  have "map pageTextureId (pageTables vt') ! t = map pageTextureId (pageTables vt) ! t"
    using assms(1) by (simp add: sameButUploads_def)
  then show ?thesis using assms(2) sameButUploads_length[OF assms(1)] by simp
qed

lemma indirection_ok_cong:
  assumes "indirectionTable vt' = indirectionTable vt"
    and "numLevels (cachePageTree (pageCacheMgr vt')) = numLevels (cachePageTree (pageCacheMgr vt))"
    and "numPagesX (cachePageTree (pageCacheMgr vt')) = numPagesX (cachePageTree (pageCacheMgr vt))"
    and "numPagesY (cachePageTree (pageCacheMgr vt')) = numPagesY (cachePageTree (pageCacheMgr vt))"
  shows "indirection_ok vt' = indirection_ok vt"
  using assms by (cases "indirectionTable vt") (simp_all add: indirection_ok_def)

lemma texture_ok_same:
  assumes "sameButUploads vt vt'"
  shows "texture_ok vt' = texture_ok vt"
proof -
  have "indirection_ok vt' = indirection_ok vt"
    using assms by (intro indirection_ok_cong) (simp_all add: sameButUploads_def)
  then show ?thesis
    using assms sameButUploads_length[OF assms]
    by (simp add: texture_ok_def sameButUploads_def)
qed

lemma frame_okD:
  assumes "frame_ok f"
  shows "texture_ok (f_vt f)"
    and "f_currentPageTexture f = Some t \<Longrightarrow>
           t < length (pageTables (f_vt f))
           \<and> f_current2DTexture f = pageTextureId (pageTables (f_vt f) ! t)"
  using assms by (auto simp: frame_ok_def)

lemma uploadTo_ok:
  assumes ok: "frame_ok f" and t: "t < length (pageTables (f_vt f))"
    and c: "coordInTable (up_cacheCoord up)"
  shows "\<exists>f'. uploadTo t up f = Some f' \<and> frame_ok f'
           \<and> sameButUploads (f_vt f) (f_vt f')
           \<and> numPageUploads (f_vt f') = numPageUploads (f_vt f) + 1
           \<and> uploaded (pageTables (f_vt f') ! t) = uploaded (pageTables (f_vt f) ! t) @ [up]
           \<and> (\<forall>u. u \<noteq> t \<longrightarrow> pageTables (f_vt f') ! u = pageTables (f_vt f) ! u)"
proof -
  define f1 where "f1 = (if f_currentPageTexture f \<noteq> Some t
                  then f\<lparr> f_currentPageTexture := Some t,
                          f_current2DTexture := pageTextureId (pageTables (f_vt f) ! t) \<rparr>
                  else f)"
  have v1: "f_vt f1 = f_vt f" by (simp add: f1_def)
  have b1: "f_currentPageTexture f1 = Some t"
    "f_current2DTexture f1 = pageTextureId (pageTables (f_vt f) ! t)"
    using frame_okD(2)[OF ok, of t] by (auto simp: f1_def)
  define pt where "pt = (pageTables (f_vt f) ! t)\<lparr> uploaded := uploaded (pageTables (f_vt f) ! t) @ [up] \<rparr>"
  have up: "uploadPage (f_current2DTexture f1) up (pageTables (f_vt f1) ! t) = Some pt"
    using c by (simp add: uploadPage_def coordInTable_def v1 b1 pt_def)
  define f' where "f' = f1\<lparr> f_vt := (f_vt f1)\<lparr> pageTables := (pageTables (f_vt f1))[t := pt],
                                            numPageUploads := numPageUploads (f_vt f1) + 1 \<rparr> \<rparr>"
  have r: "uploadTo t up f = Some f'"
    using t up unfolding uploadTo_def Let_def f1_def[symmetric] f'_def by simp
  have same: "sameButUploads (f_vt f) (f_vt f')"
    using t by (simp add: sameButUploads_def f'_def v1 pt_def map_update list_update_id)
      (metis list_update_id map_update nth_map)
  have tok: "texture_ok (f_vt f')" using texture_ok_same[OF same] frame_okD(1)[OF ok] by simp
  have bind: "f_currentPageTexture f' = Some t"
    "f_current2DTexture f' = pageTextureId (pageTables (f_vt f') ! t)"
    using t by (simp_all add: f'_def b1 v1 pt_def)
  have len: "length (pageTables (f_vt f')) = length (pageTables (f_vt f))"
    by (simp add: f'_def v1)
  have fok: "frame_ok f'" using tok bind t len by (simp add: frame_ok_def)
  have "numPageUploads (f_vt f') = numPageUploads (f_vt f) + 1" by (simp add: f'_def v1)
  moreover have "uploaded (pageTables (f_vt f') ! t) = uploaded (pageTables (f_vt f) ! t) @ [up]"
    using t by (simp add: f'_def v1 pt_def)
  moreover have "\<forall>u. u \<noteq> t \<longrightarrow> pageTables (f_vt f') ! u = pageTables (f_vt f) ! u"
    by (simp add: f'_def v1)
  ultimately show ?thesis using r fok same by blast
qed

text \<open>The loops over the sub-textures write to page tables other than the first.\<close>

lemma forEach_count:
  fixes m :: "'s \<Rightarrow> 32 word"
  assumes "I s"
    and "\<And>v t. v \<in> set vs \<Longrightarrow> I t \<Longrightarrow> \<exists>t'. body v t = Some t' \<and> I t' \<and> m t' = m t + of_nat (w v)"
  shows "\<exists>s'. forEach body vs s = Some s' \<and> I s' \<and> m s' = m s + of_nat (sum_list (map w vs))"
  using assms
proof (induction vs arbitrary: s)
  case Nil
  from Nil(1) show ?case by simp
next
  case (Cons v vs)
  obtain t where t: "body v s = Some t" "I t" "m t = m s + of_nat (w v)"
    using Cons.prems(2)[of v s] Cons.prems(1) by auto
  have "\<exists>s'. forEach body vs t = Some s' \<and> I s' \<and> m s' = m t + of_nat (sum_list (map w vs))"
  proof (rule Cons.IH[OF t(2)])
    fix u x assume "u \<in> set vs" "I x"
    then show "\<exists>t'. body u x = Some t' \<and> I t' \<and> m t' = m x + of_nat (w u)"
      using Cons.prems(2)[of u x] by simp
  qed
  then show ?case using t(1,3) by (auto simp: algebra_simps)
qed

lemma length_filter_sum:
  "sum_list (map (\<lambda>x. if P x then 1 else 0) xs) = length (filter P xs)"
  by (induction xs) simp_all

lemma subUpload_ok:
  assumes ok: "frame_ok f" and t: "0 < t" "t < length (pageTables (f_vt f))"
    and c: "coordInTable coord"
  shows "\<exists>f'. subUpload r coord t x f = Some f' \<and> frame_ok f'
           \<and> sameButUploads (f_vt f) (f_vt f')
           \<and> pageTables (f_vt f') ! 0 = pageTables (f_vt f) ! 0
           \<and> numPageUploads (f_vt f')
             = numPageUploads (f_vt f)
               + of_nat (if packetPageId x = packetPageId r \<and> unat (fileId x) = t then 1 else 0)"
proof (cases "packetPageId x \<noteq> packetPageId r \<or> unat (fileId x) \<noteq> t")
  case True
  then show ?thesis using ok by (auto simp: subUpload_def sameButUploads_refl)
next
  case False
  have "coordInTable (up_cacheCoord \<lparr> up_pageData = pageData x, up_cacheCoord = coord \<rparr>)"
    using c by simp
  from uploadTo_ok[OF ok t(2) this] obtain f'
    where "uploadTo t \<lparr> up_pageData = pageData x, up_cacheCoord = coord \<rparr> f = Some f'"
      "frame_ok f'" "sameButUploads (f_vt f) (f_vt f')"
      "numPageUploads (f_vt f') = numPageUploads (f_vt f) + 1"
      "\<forall>u. u \<noteq> t \<longrightarrow> pageTables (f_vt f') ! u = pageTables (f_vt f) ! u"
    by blast
  then show ?thesis using False t(1) by (simp add: subUpload_def)
qed

lemma subUploads_ok:
  assumes ok: "frame_ok f" and n: "n = length (pageTables (f_vt f))"
    and c: "coordInTable coord"
  shows "\<exists>f'. forEach (\<lambda>t. forEach (subUpload r coord t) q) [1..<n] f = Some f'
           \<and> frame_ok f' \<and> sameButUploads (f_vt f) (f_vt f')
           \<and> pageTables (f_vt f') ! 0 = pageTables (f_vt f) ! 0
           \<and> numPageUploads (f_vt f') = numPageUploads (f_vt f) + of_nat (subUploadCount q r n)"
proof -
  define I where "I = (\<lambda>g :: Frame. frame_ok g \<and> sameButUploads (f_vt f) (f_vt g)
                           \<and> pageTables (f_vt g) ! 0 = pageTables (f_vt f) ! 0)"
  define m where "m = (\<lambda>g :: Frame. numPageUploads (f_vt g))"
  have I0: "I f" using ok by (simp add: I_def sameButUploads_refl)
  have inner: "\<exists>g'. subUpload r coord t x g = Some g' \<and> I g'
                 \<and> m g' = m g + of_nat (if packetPageId x = packetPageId r \<and> unat (fileId x) = t
                                          then 1 else 0)"
    if t: "t \<in> set [1..<n]" and g: "I g" for t x g
  proof -
    have len: "length (pageTables (f_vt g)) = n"
      using g sameButUploads_length[of "f_vt f" "f_vt g"] n by (simp add: I_def)
    have "\<exists>f'. subUpload r coord t x g = Some f' \<and> frame_ok f'
           \<and> sameButUploads (f_vt g) (f_vt f')
           \<and> pageTables (f_vt f') ! 0 = pageTables (f_vt g) ! 0
           \<and> numPageUploads (f_vt f')
             = numPageUploads (f_vt g)
               + of_nat (if packetPageId x = packetPageId r \<and> unat (fileId x) = t then 1 else 0)"
      using g t len c by (intro subUpload_ok) (simp_all add: I_def)
    then obtain g' where g': "subUpload r coord t x g = Some g'" "frame_ok g'"
        "sameButUploads (f_vt g) (f_vt g')" "pageTables (f_vt g') ! 0 = pageTables (f_vt g) ! 0"
        "numPageUploads (f_vt g')
             = numPageUploads (f_vt g)
               + of_nat (if packetPageId x = packetPageId r \<and> unat (fileId x) = t then 1 else 0)"
      by blast
    have "I g'" using g g'(2,3,4) sameButUploads_trans[of "f_vt f" "f_vt g" "f_vt g'"]
      by (simp add: I_def)
    then show ?thesis using g'(1,5) by (simp add: m_def)
  qed
  have outer: "\<exists>g'. forEach (subUpload r coord t) q g = Some g' \<and> I g'
                 \<and> m g' = m g + of_nat (length (filter (\<lambda>x. packetPageId x = packetPageId r
                                                           \<and> unat (fileId x) = t) q))"
    if t: "t \<in> set [1..<n]" and g: "I g" for t g
  proof -
    have "\<exists>g'. forEach (subUpload r coord t) q g = Some g' \<and> I g'
            \<and> m g' = m g + of_nat (sum_list (map (\<lambda>x. if packetPageId x = packetPageId r
                                                           \<and> unat (fileId x) = t
                                                        then 1 else 0) q))"
      using g
    proof (rule forEach_count)
      fix x u assume "x \<in> set q" "I u"
      then show "\<exists>t'. subUpload r coord t x u = Some t' \<and> I t'
                   \<and> m t' = m u + of_nat (if packetPageId x = packetPageId r
                                              \<and> unat (fileId x) = t then 1 else 0)"
        using inner[OF t] by simp
    qed
    then show ?thesis unfolding length_filter_sum .
  qed
  have "\<exists>f'. forEach (\<lambda>t. forEach (subUpload r coord t) q) [1..<n] f = Some f' \<and> I f'
          \<and> m f' = m f + of_nat (sum_list (map (\<lambda>t. length (filter (\<lambda>x.
                                       packetPageId x = packetPageId r
                                       \<and> unat (fileId x) = t) q)) [1..<n]))"
    using I0 outer by (rule forEach_count)
  then show ?thesis by (simp add: I_def m_def subUploadCount_def)
qed

text \<open>One iteration of the loop of \<open>frameUpdate\<close>.\<close>

lemma mainCompletion_cong:
  "textureIndex vt' = textureIndex vt \<Longrightarrow> mainCompletion vt' = mainCompletion vt"
  by (simp add: mainCompletion_def fun_eq_iff)

lemma frameRequest_step:
  assumes ok: "frame_ok f"
    and v: "mainCompletion (f_vt f) r \<Longrightarrow> validId (pageCacheMgr (f_vt f)) (packetPageId r)"
    and n: "n = length (pageTables (f_vt f))"
  shows "\<exists>f'. frameRequest q n r f = Some f'
      \<and> frame_ok f'
      \<and> validId (pageCacheMgr (f_vt f')) = validId (pageCacheMgr (f_vt f))
      \<and> textureIndex (f_vt f') = textureIndex (f_vt f)
      \<and> length (pageTables (f_vt f')) = length (pageTables (f_vt f))
      \<and> numIndirectionTableUpdates (f_vt f') = numIndirectionTableUpdates (f_vt f)
      \<and> (\<forall>p. validId (pageCacheMgr (f_vt f)) p
               \<and> slotOf (pageCacheMgr (f_vt f)) p \<noteq> Some RequestedPageDummy
             \<longrightarrow> slotOf (pageCacheMgr (f_vt f')) p \<noteq> Some RequestedPageDummy)
      \<and> (mainCompletion (f_vt f) r
             \<longrightarrow> slotOf (pageCacheMgr (f_vt f')) (packetPageId r) \<noteq> Some RequestedPageDummy)
      \<and> (\<not> mainCompletion (f_vt f) r
           \<or> slotOf (pageCacheMgr (f_vt f)) (packetPageId r) \<noteq> Some RequestedPageDummy
             \<longrightarrow> f' = f)
      \<and> (mainCompletion (f_vt f) r
           \<and> slotOf (pageCacheMgr (f_vt f)) (packetPageId r) = Some RequestedPageDummy
             \<longrightarrow> (\<exists>coord. accommodatePage (packetPageId r) (pageCacheMgr (f_vt f))
                            = Some (coord, pageCacheMgr (f_vt f'))
                     \<and> uploaded (pageTables (f_vt f') ! 0)
                       = uploaded (pageTables (f_vt f) ! 0)
                           @ [\<lparr> up_pageData = pageData r, up_cacheCoord = coord \<rparr>]
                     \<and> numPageUploads (f_vt f')
                       = numPageUploads (f_vt f) + 1 + of_nat (subUploadCount q r n)
                     \<and> servicedRequests (stats (pageCacheMgr (f_vt f')))
                       = servicedRequests (stats (pageCacheMgr (f_vt f))) + 1))"
proof (cases "mainCompletion (f_vt f) r")
  case False
  then show ?thesis using ok by (auto simp: frameRequest_def mainCompletion_def)
next
  case True
  let ?c = "pageCacheMgr (f_vt f)" and ?p = "packetPageId r"
  note tok = frame_okD(1)[OF ok]
  have inv: "cache_inv ?c" and co: "coords_ok ?c" and iok: "indirection_ok (f_vt f)"
    and t0: "0 < length (pageTables (f_vt f))"
    using tok by (simp_all add: texture_ok_def)
  have vp: "validId ?c ?p" using v True by simp
  obtain sl where sl: "slotOf ?c ?p = Some sl"
    using slotOf_Some[OF cache_invD(2)[OF inv] vp] by blast
  have sw: "stillWantPage ?p ?c = Some (sl = RequestedPageDummy)"
    using stillWantPage_slot[OF vp] sl by simp
  have tests: "\<not> (pageIdExtractTextureIndex ?p \<noteq> textureIndex (f_vt f) \<or> fileId r \<noteq> 0)"
    using True by (simp add: mainCompletion_def)
  show ?thesis
  proof (cases "sl = RequestedPageDummy")
    case False
    then have "frameRequest q n r f = Some f"
      using tests sw by (simp add: frameRequest_def)
    then show ?thesis using ok sl False by auto
  next
    case D: True
    obtain coord c1 where a: "accommodatePage ?p ?c = Some (coord, c1)" "cache_inv c1"
        "coords_ok c1" "validId c1 = validId ?c" "coordInTable coord"
        "numLevels (cachePageTree c1) = numLevels (cachePageTree ?c)"
        "numPagesX (cachePageTree c1) = numPagesX (cachePageTree ?c)"
        "numPagesY (cachePageTree c1) = numPagesY (cachePageTree ?c)"
        "servicedRequests (stats c1) = servicedRequests (stats ?c) + 1"
        "\<exists>e. slotOf c1 ?p = Some (EntryPtr e)"
      and keep: "\<forall>p. validId ?c p \<and> slotOf ?c p \<noteq> Some RequestedPageDummy
                 \<longrightarrow> slotOf c1 p \<noteq> Some RequestedPageDummy"
      using accommodatePage_frame[OF inv vp co] by blast
    define g where "g = f\<lparr> f_vt := (f_vt f)\<lparr> pageCacheMgr := c1 \<rparr> \<rparr>"
    define up where "up = \<lparr> up_pageData = pageData r, up_cacheCoord = coord \<rparr>"
    have gi: "indirection_ok (f_vt g)"
      using iok indirection_ok_cong[of "f_vt g" "f_vt f"] a(6-8) by (simp add: g_def)
    have gt: "texture_ok (f_vt g)"
      using tok a(2,3) gi by (simp add: texture_ok_def g_def)
    have gok: "frame_ok g"
      using ok gt by (simp add: frame_ok_def g_def split: option.splits)
    have gl: "0 < length (pageTables (f_vt g))" using t0 by (simp add: g_def)
    have cu: "coordInTable (up_cacheCoord up)" using a(5) by (simp add: up_def)
    from uploadTo_ok[OF gok gl cu] obtain f1 where f1: "uploadTo 0 up g = Some f1" "frame_ok f1"
        "sameButUploads (f_vt g) (f_vt f1)"
        "uploaded (pageTables (f_vt f1) ! 0) = uploaded (pageTables (f_vt g) ! 0) @ [up]"
        "numPageUploads (f_vt f1) = numPageUploads (f_vt g) + 1"
      by blast
    have n1: "n = length (pageTables (f_vt f1))"
      using n sameButUploads_length[OF f1(3)] by (simp add: g_def)
    from subUploads_ok[OF f1(2) n1 a(5), of r q] obtain f'
      where f': "forEach (\<lambda>t. forEach (subUpload r coord t) q) [1..<n] f1 = Some f'"
        "frame_ok f'" "sameButUploads (f_vt f1) (f_vt f')"
        "pageTables (f_vt f') ! 0 = pageTables (f_vt f1) ! 0"
        "numPageUploads (f_vt f') = numPageUploads (f_vt f1) + of_nat (subUploadCount q r n)"
      by blast
    have run: "frameRequest q n r f = Some f'"
      using tests sw D a(1) f1(1)[unfolded g_def up_def] f'(1)
      by (simp add: frameRequest_def)
    note sg = sameButUploads_trans[OF f1(3) f'(3)]
    have c': "pageCacheMgr (f_vt f') = c1" using sg by (simp add: sameButUploads_def g_def)
    have ti: "textureIndex (f_vt f') = textureIndex (f_vt f)"
      using sg by (simp add: sameButUploads_def g_def)
    have len: "length (pageTables (f_vt f')) = length (pageTables (f_vt f))"
      using sameButUploads_length[OF sg] by (simp add: g_def)
    have log: "uploaded (pageTables (f_vt f') ! 0) = uploaded (pageTables (f_vt f) ! 0) @ [up]"
      using f'(4) f1(4) by (simp add: g_def)
    have nd: "slotOf c1 ?p \<noteq> Some RequestedPageDummy" using a(10) by auto
    have niu: "numIndirectionTableUpdates (f_vt f') = numIndirectionTableUpdates (f_vt f)"
      using sg by (simp add: sameButUploads_def g_def)
    have cnt: "numPageUploads (f_vt f')
                 = numPageUploads (f_vt f) + 1 + of_nat (subUploadCount q r n)"
      using f'(5) f1(5) by (simp add: g_def)
    show ?thesis
      unfolding run c'
      using f'(2) a(1,4,9) ti len niu keep nd log cnt sl D True
      by (simp add: up_def c')
  qed
qed

lemma frameLoop_inv:
  assumes ok: "frame_ok f"
    and v: "\<forall>r\<in>set rs. mainCompletion (f_vt f) r
              \<longrightarrow> validId (pageCacheMgr (f_vt f)) (packetPageId r)"
    and n: "n = length (pageTables (f_vt f))"
  shows "\<exists>f'. forEach (frameRequest q n) rs f = Some f'
      \<and> frame_ok f'
      \<and> validId (pageCacheMgr (f_vt f')) = validId (pageCacheMgr (f_vt f))
      \<and> textureIndex (f_vt f') = textureIndex (f_vt f)
      \<and> length (pageTables (f_vt f')) = length (pageTables (f_vt f))
      \<and> (\<forall>p. validId (pageCacheMgr (f_vt f)) p
               \<and> slotOf (pageCacheMgr (f_vt f)) p \<noteq> Some RequestedPageDummy
             \<longrightarrow> slotOf (pageCacheMgr (f_vt f')) p \<noteq> Some RequestedPageDummy)"
  using assms
proof (induction rs arbitrary: f)
  case Nil
  from Nil(1) show ?case by simp
next
  case (Cons r rs)
  have vr: "mainCompletion (f_vt f) r \<Longrightarrow> validId (pageCacheMgr (f_vt f)) (packetPageId r)"
    using Cons.prems(2) by simp
  from frameRequest_step[OF Cons.prems(1) vr Cons.prems(3), of q]
  obtain f1 where s1: "frameRequest q n r f = Some f1" "frame_ok f1"
      "validId (pageCacheMgr (f_vt f1)) = validId (pageCacheMgr (f_vt f))"
      "textureIndex (f_vt f1) = textureIndex (f_vt f)"
      "length (pageTables (f_vt f1)) = length (pageTables (f_vt f))"
    and k1: "\<forall>p. validId (pageCacheMgr (f_vt f)) p
               \<and> slotOf (pageCacheMgr (f_vt f)) p \<noteq> Some RequestedPageDummy
             \<longrightarrow> slotOf (pageCacheMgr (f_vt f1)) p \<noteq> Some RequestedPageDummy"
    by blast
  have v1: "\<forall>r\<in>set rs. mainCompletion (f_vt f1) r
              \<longrightarrow> validId (pageCacheMgr (f_vt f1)) (packetPageId r)"
    using Cons.prems(2) s1(3) mainCompletion_cong[OF s1(4)] by simp
  have n1: "n = length (pageTables (f_vt f1))" using Cons.prems(3) s1(5) by simp
  from Cons.IH[OF s1(2) v1 n1] obtain f' where s2: "forEach (frameRequest q n) rs f1 = Some f'"
      "frame_ok f'" "validId (pageCacheMgr (f_vt f')) = validId (pageCacheMgr (f_vt f1))"
      "textureIndex (f_vt f') = textureIndex (f_vt f1)"
      "length (pageTables (f_vt f')) = length (pageTables (f_vt f1))"
    and k2: "\<forall>p. validId (pageCacheMgr (f_vt f1)) p
               \<and> slotOf (pageCacheMgr (f_vt f1)) p \<noteq> Some RequestedPageDummy
             \<longrightarrow> slotOf (pageCacheMgr (f_vt f')) p \<noteq> Some RequestedPageDummy"
    by blast
  have "forEach (frameRequest q n) (r # rs) f = Some f'" using s1(1) s2(1) by simp
  moreover have "\<forall>p. validId (pageCacheMgr (f_vt f)) p
               \<and> slotOf (pageCacheMgr (f_vt f)) p \<noteq> Some RequestedPageDummy
             \<longrightarrow> slotOf (pageCacheMgr (f_vt f')) p \<noteq> Some RequestedPageDummy"
    using k1 k2 s1(3) by simp
  ultimately show ?case using s1(3-5) s2(2-5) by simp
qed

text \<open>A completion from page file 0 takes no part in the loops over the sub-textures.\<close>

lemma frameRequest_queue:
  assumes "fileId d = 0"
  shows "frameRequest (qa @ d # qb) n x f = frameRequest (qa @ qb) n x f"
proof -
  have skip: "subUpload x coord t d u = Some u" if "t \<in> set [1..<n]" for coord t u
    using that assms by (simp add: subUpload_def)
  have eq: "forEach (\<lambda>t. forEach (subUpload x coord t) (qa @ d # qb)) [1..<n] g
          = forEach (\<lambda>t. forEach (subUpload x coord t) (qa @ qb)) [1..<n] g" for coord g
  proof (rule forEach_cong)
    fix t u assume t: "t \<in> set [1..<n]"
    show "forEach (subUpload x coord t) (qa @ d # qb) u
          = forEach (subUpload x coord t) (qa @ qb) u"
      by (rule forEach_skip) (rule skip[OF t])
  qed
  show ?thesis unfolding frameRequest_def eq by (rule refl)
qed

text \<open>The end of \<open>frameUpdate\<close>.\<close>

lemma frameFinish_ok:
  assumes ok: "frame_ok f"
  shows "\<exists>f'. frameFinish upd f = Some f'
           \<and> pageCacheMgr (f_vt f') = pageCacheMgr (f_vt f)
           \<and> pageTables (f_vt f') = pageTables (f_vt f)
           \<and> numPageUploads (f_vt f') = numPageUploads (f_vt f)
           \<and> numIndirectionTableUpdates (f_vt f')
             = numIndirectionTableUpdates (f_vt f) + (if upd then 1 else 0)
           \<and> f_current2DTexture f'
             = (if upd then indirectionTable_textureId (indirectionTable (f_vt f))
                else f_current2DTexture f)"
proof (cases upd)
  case False
  then show ?thesis by (simp add: frameFinish_def)
next
  case True
  let ?c = "pageCacheMgr (f_vt f)"
  note tok = frame_okD(1)[OF ok]
  have inv: "cache_inv ?c" and iok: "indirection_ok (f_vt f)"
    using tok by (simp_all add: texture_ok_def)
  have len: "TotalCachePages \<le> length (cacheEntryPool ?c)" using cache_invD(5)[OF inv] by simp
  have "\<exists>tbl. updateIndirectionTexture (indirectionTable (f_vt f))
                 (indirectionTable_textureId (indirectionTable (f_vt f)))
                 (Some (cacheEntryPool ?c)) = Some tbl"
  proof (cases "indirectionTable (f_vt f)")
    case (TableRgba8888 t)
    have wf: "table_wf t" and rng: "pagesInRange t (cacheEntryPool ?c)"
      using iok cache_pagesInRange[OF inv, of t] by (simp_all add: indirection_ok_def TableRgba8888)
    have "updateIndirection (writeEntryRgba8888 t) t (indirectionTextureId t)
            (Some (cacheEntryPool ?c)) \<noteq> None"
      using wf rng len refl by (rule updateIndirection_total)
    then show ?thesis
      by (auto simp: updateIndirectionTexture_def indirectionTable_textureId_def TableRgba8888
            updateIndirectionTexture_Rgba8888_def)
  next
    case (TableRgb565 t)
    have wf: "table_wf t" and rng: "pagesInRange t (cacheEntryPool ?c)"
      using iok cache_pagesInRange[OF inv, of t] by (simp_all add: indirection_ok_def TableRgb565)
    have "updateIndirection (writeEntryRgb565 t) t (indirectionTextureId t)
            (Some (cacheEntryPool ?c)) \<noteq> None"
      using wf rng len refl by (rule updateIndirection_total)
    then show ?thesis
      by (auto simp: updateIndirectionTexture_def indirectionTable_textureId_def TableRgb565
            updateIndirectionTexture_Rgb565_def)
  qed
  then show ?thesis using True by (auto simp: frameFinish_def Let_def)
qed

section \<open>frameUpdate: duplicate completions\<close>

text \<open>Claim C9. (1) Right after \<open>accommodatePage(id)\<close> the tree slot of \<open>id\<close> holds
  the reused pool entry, not the InFlight sentinel, so \<open>stillWantPage(id)\<close> returns
  false. (2) Let \<open>frameUpdate\<close> drain a queue that holds two completions \<open>r\<close> and,
  later, \<open>r'\<close> for this texture, from page file 0 and with the same page id, on a
  texture on which the assertions of \<open>frameUpdate\<close> hold. The loop runs from the
  state \<open>f0\<close> in which it reaches \<open>r\<close>, through \<open>f1\<close> after \<open>r\<close> and \<open>f2\<close> in which it
  reaches \<open>r'\<close>, to the end of the queue, and \<open>frameUpdate\<close> returns the texture so
  obtained, after the update of the indirection table. If the page is still wanted in
  \<open>f0\<close>, the iteration for \<open>r\<close> accommodates it and uploads it: the cache of \<open>f1\<close> is the
  one \<open>accommodatePage\<close> returns, the first page table has received one more upload,
  the data of \<open>r\<close> at the coordinates \<open>accommodatePage\<close> returned, and the counter of
  uploads has gone up by one and by the uploads to the sub-textures. In \<open>f2\<close> the page
  is no longer wanted and the iteration for \<open>r'\<close> changes nothing. The result of
  \<open>frameUpdate\<close> is the one it gives on the queue without \<open>r'\<close>.\<close>

theorem frameUpdate_skips_duplicate_completions:
  assumes "texture_ok vt"
    and "\<forall>x\<in>set pageRequestUploads.
           mainCompletion vt x \<longrightarrow> validId (pageCacheMgr vt) (packetPageId x)"
    and "pageRequestUploads = before @ r # between @ r' # rest"
    and "mainCompletion vt r" and "mainCompletion vt r'"
    and "packetPageId r' = packetPageId r"
  shows "(\<forall>s pid. cache_inv s \<and> validId s pid \<longrightarrow>
            (\<exists>coord s' e. accommodatePage pid s = Some (coord, s')
               \<and> slotOf s' pid = Some (EntryPtr e) \<and> stillWantPage pid s' = Some False))
       \<and> (\<exists>f0 f1 f2 fL fE.
            forEach (frameRequest pageRequestUploads (length (pageTables vt))) before
              \<lparr> f_vt = vt, f_current2DTexture = bound, f_currentPageTexture = None \<rparr> = Some f0
          \<and> frameRequest pageRequestUploads (length (pageTables vt)) r f0 = Some f1
          \<and> (stillWantPage (packetPageId r) (pageCacheMgr (f_vt f0)) = Some True
                \<longrightarrow> (\<exists>coord.
                       accommodatePage (packetPageId r) (pageCacheMgr (f_vt f0))
                         = Some (coord, pageCacheMgr (f_vt f1))
                     \<and> uploaded (pageTables (f_vt f1) ! 0)
                       = uploaded (pageTables (f_vt f0) ! 0)
                           @ [\<lparr> up_pageData = pageData r, up_cacheCoord = coord \<rparr>]
                     \<and> numPageUploads (f_vt f1)
                       = numPageUploads (f_vt f0) + 1
                           + of_nat (subUploadCount pageRequestUploads r (length (pageTables vt)))))
          \<and> (stillWantPage (packetPageId r) (pageCacheMgr (f_vt f0)) \<noteq> Some True
                \<longrightarrow> f1 = f0)
          \<and> forEach (frameRequest pageRequestUploads (length (pageTables vt))) between f1 = Some f2
          \<and> stillWantPage (packetPageId r') (pageCacheMgr (f_vt f2)) = Some False
          \<and> frameRequest pageRequestUploads (length (pageTables vt)) r' f2 = Some f2
          \<and> forEach (frameRequest pageRequestUploads (length (pageTables vt))) rest f2 = Some fL
          \<and> frameFinish updateIndirectionTable fL = Some fE
          \<and> frameUpdate pageRequestUploads updateIndirectionTable (bound, vt)
              = Some (f_current2DTexture fE, f_vt fE)
          \<and> frameUpdate (before @ r # between @ rest) updateIndirectionTable (bound, vt)
              = Some (f_current2DTexture fE, f_vt fE))"
proof (intro conjI allI impI)
  fix s pid assume "cache_inv s \<and> validId s pid"
  then show "\<exists>coord s' e. accommodatePage pid s = Some (coord, s')
               \<and> slotOf s' pid = Some (EntryPtr e) \<and> stillWantPage pid s' = Some False"
    using accommodatePage_not_in_flight[of s pid] by blast
next
  let ?q = pageRequestUploads
  define q' where "q' = before @ r # between @ rest"
  define n where "n = length (pageTables vt)"
  define fi where "fi = \<lparr> f_vt = vt, f_current2DTexture = bound, f_currentPageTexture = None \<rparr>"
  let ?p = "packetPageId r"
  note valid = assms(2)[unfolded assms(3)]
  have oki: "frame_ok fi" using assms(1) by (simp add: frame_ok_def fi_def)
  have ni: "n = length (pageTables (f_vt fi))" by (simp add: n_def fi_def)
  have vb: "\<forall>x\<in>set before. mainCompletion (f_vt fi) x
              \<longrightarrow> validId (pageCacheMgr (f_vt fi)) (packetPageId x)"
    using valid by (simp add: fi_def)
  from frameLoop_inv[OF oki vb ni, of ?q]
  obtain f0 where s0: "forEach (frameRequest ?q n) before fi = Some f0" "frame_ok f0"
      "validId (pageCacheMgr (f_vt f0)) = validId (pageCacheMgr vt)"
      "textureIndex (f_vt f0) = textureIndex vt"
      "length (pageTables (f_vt f0)) = n"
    by (auto simp: fi_def n_def)
  have m0: "mainCompletion (f_vt f0) = mainCompletion vt" by (rule mainCompletion_cong[OF s0(4)])
  have vr: "validId (pageCacheMgr (f_vt f0)) ?p" using valid assms(4) s0(3) by simp
  have mr0: "mainCompletion (f_vt f0) r" using assms(4) m0 by simp
  have n0: "n = length (pageTables (f_vt f0))" using s0(5) by simp
  from frameRequest_step[OF s0(2) _ n0, of r ?q]
  obtain f1 where s1: "frameRequest ?q n r f0 = Some f1" "frame_ok f1"
      "validId (pageCacheMgr (f_vt f1)) = validId (pageCacheMgr (f_vt f0))"
      "textureIndex (f_vt f1) = textureIndex (f_vt f0)"
      "length (pageTables (f_vt f1)) = length (pageTables (f_vt f0))"
      "slotOf (pageCacheMgr (f_vt f1)) ?p \<noteq> Some RequestedPageDummy"
    and same: "slotOf (pageCacheMgr (f_vt f0)) ?p \<noteq> Some RequestedPageDummy \<Longrightarrow> f1 = f0"
    and acc: "slotOf (pageCacheMgr (f_vt f0)) ?p = Some RequestedPageDummy \<Longrightarrow>
               (\<exists>coord. accommodatePage ?p (pageCacheMgr (f_vt f0))
                            = Some (coord, pageCacheMgr (f_vt f1))
                     \<and> uploaded (pageTables (f_vt f1) ! 0)
                       = uploaded (pageTables (f_vt f0) ! 0)
                           @ [\<lparr> up_pageData = pageData r, up_cacheCoord = coord \<rparr>]
                     \<and> numPageUploads (f_vt f1)
                       = numPageUploads (f_vt f0) + 1 + of_nat (subUploadCount ?q r n))"
    using vr mr0 by blast
  have sw0: "stillWantPage ?p (pageCacheMgr (f_vt f0))
             = map_option (\<lambda>v. v = RequestedPageDummy) (slotOf (pageCacheMgr (f_vt f0)) ?p)"
    by (rule stillWantPage_slot[OF vr])
  obtain sl0 where sl0: "slotOf (pageCacheMgr (f_vt f0)) ?p = Some sl0"
    using slotOf_Some[OF cache_invD(2) vr] s0(2) frame_okD(1)[OF s0(2)]
    by (auto simp: texture_ok_def)
  have want: "stillWantPage ?p (pageCacheMgr (f_vt f0)) = Some True
              \<longleftrightarrow> slotOf (pageCacheMgr (f_vt f0)) ?p = Some RequestedPageDummy"
    using sw0 sl0 by auto
  have m1: "mainCompletion (f_vt f1) = mainCompletion vt"
    using mainCompletion_cong[OF s1(4)] m0 by simp
  have vm: "\<forall>x\<in>set between. mainCompletion (f_vt f1) x
              \<longrightarrow> validId (pageCacheMgr (f_vt f1)) (packetPageId x)"
    using valid s1(3) s0(3) m1 by simp
  have n1: "n = length (pageTables (f_vt f1))" using s1(5) s0(5) by simp
  from frameLoop_inv[OF s1(2) vm n1, of ?q]
  obtain f2 where s2: "forEach (frameRequest ?q n) between f1 = Some f2" "frame_ok f2"
      "validId (pageCacheMgr (f_vt f2)) = validId (pageCacheMgr (f_vt f1))"
      "textureIndex (f_vt f2) = textureIndex (f_vt f1)"
      "length (pageTables (f_vt f2)) = length (pageTables (f_vt f1))"
    and k2: "\<forall>p. validId (pageCacheMgr (f_vt f1)) p
               \<and> slotOf (pageCacheMgr (f_vt f1)) p \<noteq> Some RequestedPageDummy
             \<longrightarrow> slotOf (pageCacheMgr (f_vt f2)) p \<noteq> Some RequestedPageDummy"
    by blast
  have vr2: "validId (pageCacheMgr (f_vt f2)) ?p" using vr s1(3) s2(3) by simp
  have nd: "slotOf (pageCacheMgr (f_vt f2)) ?p \<noteq> Some RequestedPageDummy"
    using k2 s1(6) vr s1(3) by simp
  have m2: "mainCompletion (f_vt f2) = mainCompletion vt"
    using mainCompletion_cong[OF s2(4)] m1 by simp
  have inv2: "cache_inv (pageCacheMgr (f_vt f2))"
    using frame_okD(1)[OF s2(2)] by (simp add: texture_ok_def)
  obtain sl where sl: "slotOf (pageCacheMgr (f_vt f2)) ?p = Some sl"
    using slotOf_Some[OF cache_invD(2)[OF inv2] vr2] by blast
  have sw: "stillWantPage (packetPageId r') (pageCacheMgr (f_vt f2)) = Some False"
    using stillWantPage_slot[OF vr2] sl nd assms(6) by simp
  have n2: "n = length (pageTables (f_vt f2))" using s2(5) n1 by simp
  have skip: "frameRequest ?q n r' f2 = Some f2"
    using frameRequest_step[OF s2(2) _ n2, of r' ?q] vr2 nd assms(5,6) m2 by auto
  have vrest: "\<forall>x\<in>set rest. mainCompletion (f_vt f2) x
                 \<longrightarrow> validId (pageCacheMgr (f_vt f2)) (packetPageId x)"
    using valid s2(3) s1(3) s0(3) m2 by simp
  from frameLoop_inv[OF s2(2) vrest n2, of ?q]
  obtain fL where s3: "forEach (frameRequest ?q n) rest f2 = Some fL" "frame_ok fL"
    by blast
  obtain fE where s4: "frameFinish updateIndirectionTable fL = Some fE"
    using frameFinish_ok[OF s3(2)] by blast
  have pre: "forEach (frameRequest ?q n) (before @ r # between) fi = Some f2"
    using s0(1) s1(1) s2(1) by (simp add: forEach_append)
  have whole: "forEach (frameRequest ?q n) ?q fi = Some fL"
  proof -
    have "forEach (frameRequest ?q n) ((before @ r # between) @ r' # rest) fi = Some fL"
      unfolding forEach_append[of _ "before @ r # between"] pre using skip s3(1) by simp
    then show ?thesis using assms(3) by simp
  qed
  have fq: "frameRequest q' n = frameRequest ?q n"
  proof (intro ext)
    fix x g
    have f0: "fileId r' = 0" using assms(5) by (simp add: mainCompletion_def)
    have "frameRequest ((before @ r # between) @ r' # rest) n x g
          = frameRequest ((before @ r # between) @ rest) n x g"
      using f0 by (rule frameRequest_queue)
    then show "frameRequest q' n x g = frameRequest ?q n x g"
      using assms(3) by (simp add: q'_def)
  qed
  have whole': "forEach (frameRequest q' n) q' fi = Some fL"
  proof -
    have "forEach (frameRequest ?q n) ((before @ r # between) @ rest) fi = Some fL"
      unfolding forEach_append[of _ "before @ r # between"] pre using s3(1) by simp
    then show ?thesis unfolding fq by (simp add: q'_def)
  qed
  have asserts: "pageProvider vt \<noteq> None" "pageResolver vt \<noteq> None" "0 \<le> textureIndex vt"
    "length (pageFiles vt) = length (pageTables vt)"
    using assms(1) by (simp_all add: texture_ok_def)
  have ne: "?q \<noteq> []" "q' \<noteq> []" using assms(3) by (simp_all add: q'_def)
  have r1: "frameUpdate ?q updateIndirectionTable (bound, vt)
              = Some (f_current2DTexture fE, f_vt fE)"
    using asserts ne(1) whole s4
    by (simp add: frameUpdate_def Let_def fi_def[symmetric] n_def[symmetric])
  have r2: "frameUpdate q' updateIndirectionTable (bound, vt)
              = Some (f_current2DTexture fE, f_vt fE)"
    using asserts ne(2) whole' s4
    by (simp add: frameUpdate_def Let_def fi_def[symmetric] n_def[symmetric])
  have c3: "stillWantPage ?p (pageCacheMgr (f_vt f0)) = Some True
                \<longrightarrow> (\<exists>coord. accommodatePage ?p (pageCacheMgr (f_vt f0))
                            = Some (coord, pageCacheMgr (f_vt f1))
                     \<and> uploaded (pageTables (f_vt f1) ! 0)
                       = uploaded (pageTables (f_vt f0) ! 0)
                           @ [\<lparr> up_pageData = pageData r, up_cacheCoord = coord \<rparr>]
                     \<and> numPageUploads (f_vt f1)
                       = numPageUploads (f_vt f0) + 1 + of_nat (subUploadCount ?q r n))"
    using acc want by simp
  have c4: "stillWantPage ?p (pageCacheMgr (f_vt f0)) \<noteq> Some True \<longrightarrow> f1 = f0"
    using same want by simp
  show "\<exists>f0 f1 f2 fL fE.
            forEach (frameRequest ?q (length (pageTables vt))) before
              \<lparr> f_vt = vt, f_current2DTexture = bound, f_currentPageTexture = None \<rparr> = Some f0
          \<and> frameRequest ?q (length (pageTables vt)) r f0 = Some f1
          \<and> (stillWantPage (packetPageId r) (pageCacheMgr (f_vt f0)) = Some True
                \<longrightarrow> (\<exists>coord.
                       accommodatePage (packetPageId r) (pageCacheMgr (f_vt f0))
                         = Some (coord, pageCacheMgr (f_vt f1))
                     \<and> uploaded (pageTables (f_vt f1) ! 0)
                       = uploaded (pageTables (f_vt f0) ! 0)
                           @ [\<lparr> up_pageData = pageData r, up_cacheCoord = coord \<rparr>]
                     \<and> numPageUploads (f_vt f1)
                       = numPageUploads (f_vt f0) + 1
                           + of_nat (subUploadCount ?q r (length (pageTables vt)))))
          \<and> (stillWantPage (packetPageId r) (pageCacheMgr (f_vt f0)) \<noteq> Some True
                \<longrightarrow> f1 = f0)
          \<and> forEach (frameRequest ?q (length (pageTables vt))) between f1 = Some f2
          \<and> stillWantPage (packetPageId r') (pageCacheMgr (f_vt f2)) = Some False
          \<and> frameRequest ?q (length (pageTables vt)) r' f2 = Some f2
          \<and> forEach (frameRequest ?q (length (pageTables vt))) rest f2 = Some fL
          \<and> frameFinish updateIndirectionTable fL = Some fE
          \<and> frameUpdate ?q updateIndirectionTable (bound, vt)
              = Some (f_current2DTexture fE, f_vt fE)
          \<and> frameUpdate (before @ r # between @ rest) updateIndirectionTable (bound, vt)
              = Some (f_current2DTexture fE, f_vt fE)"
    unfolding n_def[symmetric] fi_def[symmetric] q'_def[symmetric]
    using s0(1) s1(1) c3 c4 s2(1) sw skip s3(1) s4 r1 r2 by blast
qed

lemma lookupPage_Null_dims:
  assumes "lookupPage pid s = Some (Unavailable, s')"
  shows "numLevels (cachePageTree s') = numLevels (cachePageTree s)
       \<and> numPagesX (cachePageTree s') = numPagesX (cachePageTree s)
       \<and> numPagesY (cachePageTree s') = numPagesY (cachePageTree s)"
  using assms
  by (auto simp: lookupPage_def Let_def tree_set_dims
           split: if_splits bind_splits TreeSlot.splits prod.splits)

lemma exampleInFlight_facts:
  "cache_inv exampleInFlight"
  "validId exampleInFlight = validId exampleCache"
  "slotOf exampleInFlight (makePageId 3 5 0 0) = Some RequestedPageDummy"
  "coords_ok exampleInFlight"
  "numLevels (cachePageTree exampleInFlight) = numLevels (cachePageTree exampleCache)"
  "numPagesX (cachePageTree exampleInFlight) = numPagesX (cachePageTree exampleCache)"
  "numPagesY (cachePageTree exampleInFlight) = numPagesY (cachePageTree exampleCache)"
proof -
  have v: "validId exampleCache (makePageId 3 5 0 0)"
    by (rule exampleCache_validId) simp_all
  have i: "cache_inv exampleCache" by (rule PageCacheMgr_new_inv[OF exampleCache_new])
  have n: "slotOf exampleCache (makePageId 3 5 0 0) = Some NullPtr"
    by (rule slotOf_new[OF exampleCache_new v])
  obtain s' where s': "lookupPage (makePageId 3 5 0 0) exampleCache = Some (Unavailable, s')"
      "slotOf s' (makePageId 3 5 0 0) = Some RequestedPageDummy" "validId s' = validId exampleCache"
      "cache_inv s'" "cacheEntryPool s' = cacheEntryPool exampleCache"
    using lookupPage_Null[OF i v n] by blast
  have e: "exampleInFlight = s'" using s'(1) by (simp add: exampleInFlight_def)
  have c: "coords_ok s'"
    using coords_ok_map[of s' exampleCache] s'(5) PageCacheMgr_new_coords[OF exampleCache_new]
    by simp
  note d = lookupPage_Null_dims[OF s'(1)]
  show "cache_inv exampleInFlight" "validId exampleInFlight = validId exampleCache"
    "slotOf exampleInFlight (makePageId 3 5 0 0) = Some RequestedPageDummy"
    "coords_ok exampleInFlight"
    "numLevels (cachePageTree exampleInFlight) = numLevels (cachePageTree exampleCache)"
    "numPagesX (cachePageTree exampleInFlight) = numPagesX (cachePageTree exampleCache)"
    "numPagesY (cachePageTree exampleInFlight) = numPagesY (cachePageTree exampleCache)"
    using s' e c d by simp_all
qed

lemma PageIndirectionTable_new_pages:
  assumes "PageIndirectionTable_new vtPagesX vtPagesY vtNumLevels log2Wide dflt texId heap = Some tbl"
  shows "it_numPagesX tbl
         = take (nat vtNumLevels) vtPagesX @ replicate (nat MaxVTMipLevels - nat vtNumLevels) 0"
    "it_numPagesY tbl
         = take (nat vtNumLevels) vtPagesY @ replicate (nat MaxVTMipLevels - nat vtNumLevels) 0"
  using assms unfolding PageIndirectionTable_new_def Let_def
  by (auto split: if_splits)

lemma exampleIndirection_new:
  "PageIndirectionTable_new [16, 8, 4, 2, 1] [16, 8, 4, 2, 1] 5 0 defaultEntryRgba8888 7
     (\<lambda>a. exampleHeapEntry) = Some exampleIndirection"
proof -
  have "PageIndirectionTable_new [16, 8, 4, 2, 1] [16, 8, 4, 2, 1] 5 0 defaultEntryRgba8888 7
     (\<lambda>a. exampleHeapEntry) \<noteq> None"
    unfolding PageIndirectionTable_new_def Let_def MaxVTMipLevels_def
    by (simp add: list_all_iff less_Suc_eq numeral_nat)
  then show ?thesis
    by (auto simp: exampleIndirection_def PageIndirectionTableRgba8888_new_def)
qed

lemma exampleTexture_ok: "texture_ok exampleTexture"
proof -
  note w = PageIndirectionTable_new_wf(1,3)[OF exampleIndirection_new]
  note p = PageIndirectionTable_new_pages[OF exampleIndirection_new]
  note c = PageCacheMgr_new_tree(1-3)[OF exampleCache_new]
  have "indirection_ok exampleTexture"
    using w p c exampleInFlight_facts(5-7)
    by (simp add: indirection_ok_def exampleTexture_def)
  then show ?thesis
    using exampleInFlight_facts(1,4) by (simp add: texture_ok_def exampleTexture_def)
qed

lemma examplePacket_main: "mainCompletion exampleTexture examplePacket"
  by (simp add: mainCompletion_def exampleTexture_def examplePacket_def extract_make_num)

lemma examplePacket_valid:
  "validId (pageCacheMgr exampleTexture) (packetPageId examplePacket)"
  using exampleCache_validId[of 3 5 0 0] exampleInFlight_facts(2)
  by (simp add: exampleTexture_def examplePacket_def)

theorem frameUpdate_skips_duplicate_completions_witness:
  "\<exists>bound' vt' coord.
      frameUpdate [examplePacket, examplePacket] True (0, exampleTexture) = Some (bound', vt')
    \<and> frameUpdate [examplePacket] True (0, exampleTexture) = Some (bound', vt')
    \<and> uploaded (pageTables vt' ! 0) = [\<lparr> up_pageData = [], up_cacheCoord = coord \<rparr>]
    \<and> numPageUploads vt' = 1
    \<and> numIndirectionTableUpdates vt' = 1
    \<and> stillWantPage (makePageId 3 5 0 0) (pageCacheMgr vt') = Some False"
proof -
  let ?q = "[examplePacket, examplePacket]"
  let ?fi = "\<lparr> f_vt = exampleTexture, f_current2DTexture = 0, f_currentPageTexture = None \<rparr>"
  have v: "\<forall>x\<in>set ?q. mainCompletion exampleTexture x
              \<longrightarrow> validId (pageCacheMgr exampleTexture) (packetPageId x)"
    using examplePacket_valid by simp
  have q: "?q = [] @ examplePacket # [] @ examplePacket # []" by simp
  from frameUpdate_skips_duplicate_completions
         [OF exampleTexture_ok v q examplePacket_main examplePacket_main refl, of 0 True]
  obtain f0 f1 f2 fL fE where
      c0: "forEach (frameRequest ?q (length (pageTables exampleTexture))) [] ?fi = Some f0"
    and cr: "frameRequest ?q (length (pageTables exampleTexture)) examplePacket f0 = Some f1"
    and c1: "stillWantPage (packetPageId examplePacket) (pageCacheMgr (f_vt f0)) = Some True
                \<longrightarrow> (\<exists>coord.
                       accommodatePage (packetPageId examplePacket) (pageCacheMgr (f_vt f0))
                         = Some (coord, pageCacheMgr (f_vt f1))
                     \<and> uploaded (pageTables (f_vt f1) ! 0)
                       = uploaded (pageTables (f_vt f0) ! 0)
                           @ [\<lparr> up_pageData = pageData examplePacket, up_cacheCoord = coord \<rparr>]
                     \<and> numPageUploads (f_vt f1)
                       = numPageUploads (f_vt f0) + 1
                           + of_nat (subUploadCount ?q examplePacket
                                       (length (pageTables exampleTexture))))"
    and c2: "forEach (frameRequest ?q (length (pageTables exampleTexture))) [] f1 = Some f2"
    and c3: "stillWantPage (packetPageId examplePacket) (pageCacheMgr (f_vt f2)) = Some False"
    and c4: "forEach (frameRequest ?q (length (pageTables exampleTexture))) [] f2 = Some fL"
    and c5: "frameFinish True fL = Some fE"
    and c6: "frameUpdate ?q True (0, exampleTexture) = Some (f_current2DTexture fE, f_vt fE)"
    and c7: "frameUpdate ([] @ examplePacket # [] @ []) True (0, exampleTexture)
               = Some (f_current2DTexture fE, f_vt fE)"
    by blast
  have e0: "f0 = ?fi" using c0 by simp
  have e2: "f2 = f1" using c2 by simp
  have eL: "fL = f1" using c4 e2 by simp
  have want: "stillWantPage (packetPageId examplePacket) (pageCacheMgr (f_vt f0)) = Some True"
    using stillWantPage_slot[OF examplePacket_valid] exampleInFlight_facts(3)
    by (simp add: e0 exampleTexture_def examplePacket_def)
  have cnt: "subUploadCount ?q examplePacket (length (pageTables exampleTexture)) = 0"
    by (simp add: subUploadCount_def exampleTexture_def)
  from c1 want cnt obtain coord where
      u: "uploaded (pageTables (f_vt f1) ! 0)
            = uploaded (pageTables (f_vt f0) ! 0)
                @ [\<lparr> up_pageData = pageData examplePacket, up_cacheCoord = coord \<rparr>]"
         "numPageUploads (f_vt f1) = numPageUploads (f_vt f0) + 1"
    by auto
  have ok1: "frame_ok f1" and iu1: "numIndirectionTableUpdates (f_vt f1) = 0"
  proof -
    have oki: "frame_ok ?fi" using exampleTexture_ok by (simp add: frame_ok_def)
    from frameRequest_step[OF oki _ refl, of examplePacket ?q]
    obtain g where "frameRequest ?q (length (pageTables (f_vt ?fi))) examplePacket ?fi = Some g"
        "frame_ok g" "numIndirectionTableUpdates (f_vt g) = numIndirectionTableUpdates (f_vt ?fi)"
      using examplePacket_valid by auto
    then show "frame_ok f1" "numIndirectionTableUpdates (f_vt f1) = 0"
      using cr e0 by (simp_all add: exampleTexture_def)
  qed
  from frameFinish_ok[OF ok1, of True] c5 eL
  have fin: "pageCacheMgr (f_vt fE) = pageCacheMgr (f_vt f1)"
      "pageTables (f_vt fE) = pageTables (f_vt f1)"
      "numPageUploads (f_vt fE) = numPageUploads (f_vt f1)"
      "numIndirectionTableUpdates (f_vt fE) = numIndirectionTableUpdates (f_vt f1) + 1"
    by auto
  have "uploaded (pageTables (f_vt fE) ! 0) = [\<lparr> up_pageData = [], up_cacheCoord = coord \<rparr>]"
    using u(1) fin(2) by (simp add: e0 exampleTexture_def examplePacket_def)
  moreover have "numIndirectionTableUpdates (f_vt fE) = 1" using fin(4) iu1 by simp
  moreover have "numPageUploads (f_vt fE) = 1"
    using u(2) fin(3) by (simp add: e0 exampleTexture_def)
  moreover have "stillWantPage (makePageId 3 5 0 0) (pageCacheMgr (f_vt fE)) = Some False"
    using c3 fin(1) e2 by (simp add: examplePacket_def)
  moreover have "frameUpdate [examplePacket] True (0, exampleTexture)
                   = Some (f_current2DTexture fE, f_vt fE)"
    using c7 by simp
  ultimately show ?thesis using c6 by blast
qed

end
